theory Spec2Isabelle
  imports Main "HOL-Library.Word" "HOL-Library.Multiset"
begin

section \<open>Group-by evaluation of query/groupby.go\<close>

subsection \<open>Values, identifiers and errors\<close>

text \<open>
  An entity identifier is Go's \<^verbatim>\<open>uint64\<close>. A \<^verbatim>\<open>types.Val\<close> is a type tag together with
  an \<^verbatim>\<open>interface{}\<close> payload; the payload's dynamic type is what the type
  assertions of the source inspect. Package \<^verbatim>\<open>types\<close> is not among the sources: the tags
  below are the ones the source names plus the remaining scalar tags, and payloads of
  dynamic types the source never inspects are kept opaque.
\<close>

type_synonym uid = "64 word"

datatype TypeID = DefaultID | BinaryID | IntID | FloatID | BoolID | DateTimeID
  | GeoID | UidID | PasswordID | StringID

datatype iface = Nil | Uint64 uid | Int64 "64 word" | Str string | Opaque nat

record Val =
  Tid :: TypeID
  Value :: iface

text \<open>
  The errors the source creates or compares against. \<^verbatim>\<open>Crash\<close> stands for a run-time
  panic (a failed type assertion) and for \<^verbatim>\<open>x.Check\<close> on a non-nil error, both of which
  end the evaluation instead of returning to the caller; \<^verbatim>\<open>ErrOther\<close> is any error
  handed back by a collaborator outside this file.
\<close>

datatype error =
    ErrEmptyVal
  | ErrCountNotUid
  | ErrManyKeys nat
  | ErrVarNotUid
  | ErrOther string
  | Crash

definition usage_error :: "error \<Rightarrow> bool" where
  "usage_error e = (case e of ErrCountNotUid \<Rightarrow> True | ErrManyKeys n \<Rightarrow> True
     | ErrVarNotUid \<Rightarrow> True | _ \<Rightarrow> False)"

subsection \<open>Groups\<close>

record groupPair =
  key :: Val
  attr :: string

record groupResult =
  keys :: "groupPair list"
  aggregates :: "groupPair list"
  uids :: "uid list"

record groupResults =
  group :: "groupResult list"

record groupElements =
  entities :: "uid list"
  ekey :: Val

text \<open>
  The Go map \<^verbatim>\<open>elements\<close> is an association list with one pair per key, in the order
  the keys were inserted; the order in which \<^verbatim>\<open>range\<close> visits it is a separate
  parameter of the functions that iterate (Go leaves it unspecified). The field
  \<^verbatim>\<open>key\<close> of \<^verbatim>\<open>groupElements\<close> is \<open>ekey\<close> here and the field \<^verbatim>\<open>attr\<close> of \<^verbatim>\<open>uniq\<close>
  is \<open>uattr\<close>: \<^verbatim>\<open>groupPair\<close> has taken the two names.
\<close>

record uniq =
  elements :: "(string \<times> groupElements) list"
  uattr :: string

record dedup =
  groups :: "uniq list"

subsection \<open>Result nodes\<close>

text \<open>
  The declaration of \<^verbatim>\<open>SubGraph\<close> is not among the sources; the fields are the ones this
  file reads and writes. An identifier set (\<^verbatim>\<open>codec.UIDSet\<close>) is the list of its
  members in iteration order. \<^verbatim>\<open>valueMatrix\<close> and \<^verbatim>\<open>uidMatrix\<close> are indexed by source
  identifier, and \<^verbatim>\<open>uidMatrix\<close> is also ranged over: both are association lists, the
  order of the pairs being the order of \<^verbatim>\<open>range\<close>; an identifier without a pair has
  no values and no adjacent identifiers.
\<close>

record TaskValue =
  tvVal :: string
  tvType :: nat

record params =
  Alias :: string
  DoCount :: bool
  IgnoreResult :: bool
  Var :: string

record Function =
  Name :: string

datatype SubGraph = SubGraph
  (Params: params)
  (Attr: string)
  (SrcFunc: "Function option")
  (SrcUIDs: "uid list")
  (DestUIDs: "uid list")
  (valueMatrix: "(uid \<times> TaskValue list) list")
  (uidMatrix: "(uid \<times> uid list) list")
  (Children: "SubGraph list")
  (GroupbyRes: "groupResults list")

record varValue =
  Vals :: "uid \<rightharpoonup> Val"
  path :: "SubGraph option list"

definition Values :: "(uid \<times> TaskValue list) list \<Rightarrow> uid \<Rightarrow> TaskValue list" where
  "Values m u = (case map_of m u of None \<Rightarrow> [] | Some vs \<Rightarrow> vs)"

definition adjacent :: "(uid \<times> uid list) list \<Rightarrow> uid \<Rightarrow> uid list" where
  "adjacent m u = (case map_of m u of None \<Rightarrow> [] | Some us \<Rightarrow> us)"

subsection \<open>Collaborators\<close>

text \<open>
  The functions of other packages that the source calls and whose code is not among the
  sources are parameters: \<^verbatim>\<open>types.Marshal\<close> to a string (\<open>None\<close> when it returns an
  error), \<^verbatim>\<open>types.Less\<close> (the boolean and the error it returns), \<^verbatim>\<open>convertTo\<close>,
  \<^verbatim>\<open>convertWithBestEffort\<close>, \<^verbatim>\<open>isAggregatorFn\<close>, the arithmetic of a reducer over the
  values applied to it, the order in which \<^verbatim>\<open>range\<close> visits a bucket's map (it may
  depend on the keys chosen so far, that is, on the call), and \<^verbatim>\<open>sort.Slice\<close>.
\<close>

record env =
  Marshal :: "Val \<Rightarrow> string option"
  Less :: "Val \<Rightarrow> Val \<Rightarrow> bool \<times> error option"
  convertTo :: "TaskValue \<Rightarrow> error + Val"
  convertWithBestEffort :: "TaskValue \<Rightarrow> string \<Rightarrow> error + Val"
  isAggregatorFn :: "string \<Rightarrow> bool"
  reduce :: "string \<Rightarrow> Val list \<Rightarrow> Val"
  rangeOrder :: "groupPair list \<Rightarrow> (string \<times> groupElements) list
                  \<Rightarrow> (string \<times> groupElements) list"
  sortSlice :: "(groupResult \<Rightarrow> groupResult \<Rightarrow> bool) \<Rightarrow> groupResult list
                  \<Rightarrow> groupResult list"

text \<open>
  Modelled from the spec: the reducer (\<^verbatim>\<open>aggregator\<close>, with \<^verbatim>\<open>Apply\<close> and \<^verbatim>\<open>Value\<close>) is
  missing from the sources. The spec says that it keeps running state per function, that
  it yields its final typed value at the end, and that it yields the empty-value sentinel
  when it has had no qualifying input. Its state is the function name and the values
  applied so far.
\<close>

record aggregator =
  name :: string
  applied :: "Val list"

definition Apply :: "aggregator \<Rightarrow> Val \<Rightarrow> aggregator" where
  "Apply ag v = ag\<lparr>applied := applied ag @ [v]\<rparr>"

definition ag_Value :: "env \<Rightarrow> aggregator \<Rightarrow> error + Val" where
  "ag_Value E ag = (if applied ag = [] then Inl ErrEmptyVal
                    else Inr (reduce E (name ag) (applied ag)))"

text \<open>
  Modelled from the spec: \<^verbatim>\<open>algo.IntersectWith\<close> and \<^verbatim>\<open>codec.Intersect\<close> are missing from
  the sources; the spec calls them set intersection producing a new collection. The
  result keeps the members of the first collection that the second one contains.
\<close>

definition IntersectWith :: "uid list \<Rightarrow> uid list \<Rightarrow> uid list" where
  "IntersectWith u v = filter (\<lambda>x. x \<in> set v) u"

definition Intersect :: "uid list \<Rightarrow> uid list \<Rightarrow> uid list" where
  "Intersect u v = filter (\<lambda>x. x \<in> set v) u"

text \<open>
  Modelled from the spec: \<^verbatim>\<open>Iterate\<close> of an identifier collection is missing from the
  sources; the spec calls it ordered iteration with a fallible per-element callback. It
  stops at the first callback that fails and returns that error; the state is the one
  the successful callbacks have built.
\<close>

fun Iterate :: "uid list \<Rightarrow> (uid \<Rightarrow> 's \<Rightarrow> error + 's) \<Rightarrow> 's \<Rightarrow> 's \<times> error option" where
  "Iterate [] f s = (s, None)"
| "Iterate (u # us) f s = (case f u s of Inl e \<Rightarrow> (s, Some e) | Inr s' \<Rightarrow> Iterate us f s')"

subsection \<open>aggregateGroup and aggregateChild\<close>

text \<open>
  The loop of \<^verbatim>\<open>aggregateGroup\<close>: an identifier contributes the conversion of its first
  value when the child's source set contains it, it has a value, and the conversion
  succeeds.
\<close>

fun aggregateGroup_loop :: "env \<Rightarrow> SubGraph \<Rightarrow> uid list \<Rightarrow> aggregator \<Rightarrow> aggregator" where
  "aggregateGroup_loop E child [] ag = ag"
| "aggregateGroup_loop E child (u # us) ag =
     (if u \<notin> set (SrcUIDs child) then aggregateGroup_loop E child us ag
      else if length (Values (valueMatrix child) u) = 0 then aggregateGroup_loop E child us ag
      else (case convertWithBestEffort E (hd (Values (valueMatrix child) u)) (Attr child) of
              Inl e \<Rightarrow> aggregateGroup_loop E child us ag
            | Inr val \<Rightarrow> aggregateGroup_loop E child us (Apply ag val)))"

text \<open>
  \<^verbatim>\<open>child.SrcFunc.Name\<close> dereferences the source function: a nil one is a panic (the
  only caller has checked it).
\<close>

definition aggregateGroup :: "env \<Rightarrow> groupResult \<Rightarrow> SubGraph \<Rightarrow> error + Val" where
  "aggregateGroup E grp child =
     (case SrcFunc child of
        None \<Rightarrow> Inl Crash
      | Some f \<Rightarrow>
          ag_Value E (aggregateGroup_loop E child (uids grp) \<lparr>name = Name f, applied = []\<rparr>))"

text \<open>
  \<^verbatim>\<open>aggregateChild\<close> mutates the group it is called on and returns an error or nil: the
  model returns the group after the call and the error. \<^verbatim>\<open>fmt.Sprintf("%s(%s)", \<dots>)\<close> is
  the concatenation written out.
\<close>

definition aggregateChild :: "env \<Rightarrow> groupResult \<Rightarrow> SubGraph \<Rightarrow> groupResult \<times> error option" where
  "aggregateChild E grp child =
     (let fieldName = Alias (Params child) in
      if DoCount (Params child) then
        (if Attr child \<noteq> ''uid'' then (grp, Some ErrCountNotUid)
         else
           let fieldName = (if fieldName = '''' then ''count'' else fieldName) in
           (grp\<lparr>aggregates := aggregates grp @
               [\<lparr>key = \<lparr>Tid = IntID, Value = Int64 (of_nat (length (uids grp)))\<rparr>,
                 attr = fieldName\<rparr>]\<rparr>, None))
      else
        (case SrcFunc child of
           None \<Rightarrow> (grp, None)
         | Some f \<Rightarrow>
             if isAggregatorFn E (Name f) then
               let fieldName = (if fieldName = '''' then Name f @ ''('' @ Attr child @ '')''
                                else fieldName) in
               (case aggregateGroup E grp child of
                  Inl err \<Rightarrow> (grp, Some err)
                | Inr finalVal \<Rightarrow>
                    (grp\<lparr>aggregates := aggregates grp @ [\<lparr>key = finalVal, attr = fieldName\<rparr>]\<rparr>,
                     None))
             else (grp, None)))"

subsection \<open>The deduplication index\<close>

text \<open>
  \<^verbatim>\<open>getGroup\<close> searches the buckets from the last to the first and returns a pointer to
  the bucket found, or to a new empty bucket that it appends: the model returns the index
  after the call and the position of the bucket in it.
\<close>

fun getGroup_find :: "uniq list \<Rightarrow> string \<Rightarrow> nat \<Rightarrow> nat option" where
  "getGroup_find gs a 0 = None"
| "getGroup_find gs a (Suc i) =
     (if a = uattr (gs ! i) then Some i else getGroup_find gs a i)"

definition getGroup :: "dedup \<Rightarrow> string \<Rightarrow> dedup \<times> nat" where
  "getGroup d a =
     (case getGroup_find (groups d) a (length (groups d)) of
        Some i \<Rightarrow> (d, i)
      | None \<Rightarrow> (d\<lparr>groups := groups d @ [\<lparr>elements = [], uattr = a\<rparr>]\<rparr>, length (groups d)))"

text \<open>\<^verbatim>\<open>strconv.FormatUint(u, 10)\<close>: the decimal digits, most significant first.\<close>

fun digits :: "nat \<Rightarrow> string" where
  "digits n = (if n < 10 then [''0123456789'' ! n]
               else digits (n div 10) @ [''0123456789'' ! (n mod 10)])"

declare digits.simps [simp del]

definition FormatUint :: "uid \<Rightarrow> string" where
  "FormatUint u = digits (unat u)"

text \<open>
  The string key of \<^verbatim>\<open>addValue\<close>: \<open>Inl Crash\<close> when the value is tagged as an entity
  reference and its payload is not a \<^verbatim>\<open>uint64\<close> (the type assertion panics),
  \<open>Inr None\<close> when marshaling fails, the key otherwise.
\<close>

definition addValue_strKey :: "env \<Rightarrow> Val \<Rightarrow> error + string option" where
  "addValue_strKey E v =
     (if Tid v = UidID then
        (case Value v of Uint64 u \<Rightarrow> Inr (Some (FormatUint u)) | _ \<Rightarrow> Inl Crash)
      else Inr (Marshal E v))"

definition addValue_entry ::
  "(string \<times> groupElements) list \<Rightarrow> string \<Rightarrow> Val \<Rightarrow> uid \<Rightarrow> (string \<times> groupElements) list" where
  "addValue_entry els strKey v u =
     (let els1 = (case map_of els strKey of
                    None \<Rightarrow> els @ [(strKey, \<lparr>entities = [], ekey = v\<rparr>)]
                  | Some _ \<Rightarrow> els)
      in map (\<lambda>(k, e). if k = strKey then (k, e\<lparr>entities := entities e @ [u]\<rparr>) else (k, e))
           els1)"

definition addValue :: "env \<Rightarrow> dedup \<Rightarrow> string \<Rightarrow> Val \<Rightarrow> uid \<Rightarrow> error + dedup" where
  "addValue E d a v u =
     (case getGroup d a of
        (d1, i) \<Rightarrow>
          (case addValue_strKey E v of
             Inl e \<Rightarrow> Inl e
           | Inr None \<Rightarrow> Inr d1
           | Inr (Some strKey) \<Rightarrow>
               Inr (d1\<lparr>groups := (groups d1)
                      [i := (groups d1 ! i)
                         \<lparr>elements := addValue_entry (elements (groups d1 ! i)) strKey v u\<rparr>]\<rparr>)))"

subsection \<open>formGroups\<close>

text \<open>
  The receiver \<^verbatim>\<open>res\<close> is passed in and returned. \<^verbatim>\<open>dedupMap.groups[l]\<close> with
  \<^verbatim>\<open>l\<close> beyond the last bucket is an index panic. The loop visits the entries of bucket
  \<^verbatim>\<open>l\<close> in the order \<open>rangeOrder\<close> gives.
\<close>

function formGroups ::
  "env \<Rightarrow> dedup \<Rightarrow> uid list \<Rightarrow> groupPair list \<Rightarrow> groupResults \<Rightarrow> error + groupResults" where
  "formGroups E dedupMap cur groupVal res =
     (if length (groups dedupMap) = 0 \<or> (length groupVal \<noteq> 0 \<and> length cur = 0) then Inr res
      else if length groupVal = length (groups dedupMap) then
        Inr (res\<lparr>group := group res @ [\<lparr>keys = groupVal, aggregates = [], uids = cur\<rparr>]\<rparr>)
      else if length (groups dedupMap) < length groupVal then Inl Crash
      else
        fold (\<lambda>kv r.
               case r of
                 Inl e \<Rightarrow> Inl e
               | Inr res' \<Rightarrow>
                   formGroups E dedupMap
                     (if length groupVal \<noteq> 0 then IntersectWith cur (entities (snd kv))
                      else entities (snd kv))
                     (groupVal @ [\<lparr>key = ekey (snd kv),
                                   attr = uattr (groups dedupMap ! length groupVal)\<rparr>])
                     res')
          (rangeOrder E groupVal (elements (groups dedupMap ! length groupVal)))
          (Inr res))"
  by pat_completeness auto
termination
  by (relation "measure (\<lambda>(E, dedupMap, cur, groupVal, res).
        length (groups dedupMap) - length groupVal)") auto

declare formGroups.simps [simp del]

subsection \<open>groupLess\<close>

text \<open>
  One of the two loops of \<^verbatim>\<open>groupLess\<close>, from position \<open>i\<close> on: \<open>Some r\<close> when the loop
  returns \<open>r\<close>, \<open>None\<close> when it runs to its end. The loop is entered only with lists of
  equal length, so that \<^verbatim>\<open>b.keys[i]\<close> exists whenever \<^verbatim>\<open>a.keys[i]\<close> does.
\<close>

function groupLess_loop :: "env \<Rightarrow> groupPair list \<Rightarrow> groupPair list \<Rightarrow> nat \<Rightarrow> bool option" where
  "groupLess_loop E as bs i =
     (if i < length as then
        (case Less E (key (as ! i)) (key (bs ! i)) of
           (l, None) \<Rightarrow>
             if l then Some l
             else (case Less E (key (bs ! i)) (key (as ! i)) of
                     (l', _) \<Rightarrow> if l' then Some (\<not> l') else groupLess_loop E as bs (Suc i))
         | (l, Some err) \<Rightarrow> groupLess_loop E as bs (Suc i))
      else None)"
  by pat_completeness auto
termination
  by (relation "measure (\<lambda>(E, as, bs, i). length as - i)") auto

declare groupLess_loop.simps [simp del]

definition groupLess :: "env \<Rightarrow> groupResult \<Rightarrow> groupResult \<Rightarrow> bool" where
  "groupLess E a b =
     (if length (uids a) < length (uids b) then True
      else if length (uids a) \<noteq> length (uids b) then False
      else if length (keys a) < length (keys b) then True
      else if length (keys a) \<noteq> length (keys b) then False
      else if length (aggregates a) < length (aggregates b) then True
      else if length (aggregates a) \<noteq> length (aggregates b) then False
      else (case groupLess_loop E (keys a) (keys b) 0 of
              Some r \<Rightarrow> r
            | None \<Rightarrow>
                (case groupLess_loop E (aggregates a) (aggregates b) 0 of
                   Some r \<Rightarrow> r
                 | None \<Rightarrow> False)))"

subsection \<open>formResult\<close>

definition groupAttr :: "SubGraph \<Rightarrow> string" where
  "groupAttr child =
     (if Alias (Params child) = '''' then Attr child else Alias (Params child))"

text \<open>The two callbacks handed to \<^verbatim>\<open>Iterate\<close>, for a value node and for a UID node.\<close>

definition valueNode :: "env \<Rightarrow> SubGraph \<Rightarrow> uid \<Rightarrow> dedup \<Rightarrow> error + dedup" where
  "valueNode E child srcUID d =
     (let valueList = Values (valueMatrix child) srcUID in
      if length valueList > 0 then
        (case convertTo E (hd valueList) of
           Inl err \<Rightarrow> Inl err
         | Inr val \<Rightarrow> addValue E d (groupAttr child) val srcUID)
      else Inr d)"

definition uidNode :: "env \<Rightarrow> SubGraph \<Rightarrow> uid \<Rightarrow> dedup \<Rightarrow> error + dedup" where
  "uidNode E child srcUID d =
     (case Iterate (adjacent (uidMatrix child) srcUID)
             (\<lambda>adjUID d'. addValue E d' (groupAttr child) \<lparr>Tid = UidID, Value = Uint64 adjUID\<rparr> srcUID)
             d of
        (d', None) \<Rightarrow> Inr d'
      | (d', Some e) \<Rightarrow> Inl e)"

text \<open>
  The first loop of \<^verbatim>\<open>formResult\<close>. \<^verbatim>\<open>x.Check\<close> ends the evaluation when the iteration
  returns an error.
\<close>

fun formResult_dedup :: "env \<Rightarrow> SubGraph list \<Rightarrow> uid list \<Rightarrow> dedup \<Rightarrow> error + dedup" where
  "formResult_dedup E [] uidSet d = Inr d"
| "formResult_dedup E (child # rest) uidSet d =
     (if \<not> IgnoreResult (Params child) then formResult_dedup E rest uidSet d
      else if DestUIDs child = [] then
        (case Iterate (Intersect (SrcUIDs child) uidSet) (valueNode E child) d of
           (d', None) \<Rightarrow> formResult_dedup E rest uidSet d'
         | (d', Some e) \<Rightarrow> Inl Crash)
      else
        (case Iterate (Intersect (SrcUIDs child) uidSet) (uidNode E child) d of
           (d', None) \<Rightarrow> formResult_dedup E rest uidSet d'
         | (d', Some e) \<Rightarrow> Inl Crash))"

text \<open>
  The loop over the groups for one aggregation child, as \<^verbatim>\<open>formResult\<close> and
  \<^verbatim>\<open>fillGroupedVars\<close> both write it: it stops at the first error that is not the
  empty-value sentinel. The groups are returned as the calls have left them.
\<close>

fun aggregateChild_groups ::
  "env \<Rightarrow> SubGraph \<Rightarrow> groupResult list \<Rightarrow> groupResult list \<times> error option" where
  "aggregateChild_groups E child [] = ([], None)"
| "aggregateChild_groups E child (grp # gs) =
     (case aggregateChild E grp child of
        (grp', err) \<Rightarrow>
          if err \<noteq> None \<and> err \<noteq> Some ErrEmptyVal then (grp' # gs, err)
          else (case aggregateChild_groups E child gs of
                  (gs', err') \<Rightarrow> (grp' # gs', err')))"

fun formResult_children ::
  "env \<Rightarrow> SubGraph list \<Rightarrow> groupResult list \<Rightarrow> groupResult list \<times> error option" where
  "formResult_children E [] gs = (gs, None)"
| "formResult_children E (child # rest) gs =
     (if IgnoreResult (Params child) then formResult_children E rest gs
      else (case aggregateChild_groups E child gs of
              (gs', Some err) \<Rightarrow> (gs', Some err)
            | (gs', None) \<Rightarrow> formResult_children E rest gs'))"

definition formResult :: "env \<Rightarrow> SubGraph \<Rightarrow> uid list \<Rightarrow> groupResults \<times> error option" where
  "formResult E sg uidSet =
     (case formResult_dedup E (Children sg) uidSet \<lparr>groups = []\<rparr> of
        Inl e \<Rightarrow> (\<lparr>group = []\<rparr>, Some e)
      | Inr dedupMap \<Rightarrow>
          (case formGroups E dedupMap [] [] \<lparr>group = []\<rparr> of
             Inl e \<Rightarrow> (\<lparr>group = []\<rparr>, Some e)
           | Inr res \<Rightarrow>
               (case formResult_children E (Children sg) (group res) of
                  (gs, Some err) \<Rightarrow> (res\<lparr>group := gs\<rparr>, Some err)
                | (gs, None) \<Rightarrow> (res\<lparr>group := sortSlice E (groupLess E) gs\<rparr>, None))))"

subsection \<open>fillGroupedVars\<close>

text \<open>
  The grouping loop of \<^verbatim>\<open>fillGroupedVars\<close>, with the index and \<^verbatim>\<open>pathNode\<close> as its
  state. For a value node the error that \<^verbatim>\<open>Iterate\<close> returns is dropped (a panic is
  not an error and is not dropped); for a UID node it goes to \<^verbatim>\<open>x.Check\<close>.
\<close>

fun fillGroupedVars_dedup ::
  "env \<Rightarrow> SubGraph list \<Rightarrow> dedup \<Rightarrow> SubGraph option \<Rightarrow> error + (dedup \<times> SubGraph option)" where
  "fillGroupedVars_dedup E [] d pathNode = Inr (d, pathNode)"
| "fillGroupedVars_dedup E (child # rest) d pathNode =
     (if \<not> IgnoreResult (Params child) then fillGroupedVars_dedup E rest d pathNode
      else if DestUIDs child = [] then
        (case Iterate (SrcUIDs child) (valueNode E child) d of
           (d', Some Crash) \<Rightarrow> Inl Crash
         | (d', _) \<Rightarrow> fillGroupedVars_dedup E rest d' pathNode)
      else
        (case Iterate (SrcUIDs child) (uidNode E child) d of
           (d', None) \<Rightarrow> fillGroupedVars_dedup E rest d' (Some child)
         | (d', Some e) \<Rightarrow> Inl Crash))"

text \<open>The loop that fills \<^verbatim>\<open>tempMap\<close> for one child that declares a variable.\<close>

fun fillGroupedVars_bind :: "groupResult list \<Rightarrow> (uid \<rightharpoonup> Val) \<Rightarrow> error + (uid \<rightharpoonup> Val)" where
  "fillGroupedVars_bind [] tempMap = Inr tempMap"
| "fillGroupedVars_bind (grp # gs) tempMap =
     (if length (keys grp) = 0 then fillGroupedVars_bind gs tempMap
      else if length (keys grp) > 1 then Inl (ErrManyKeys (length (keys grp)))
      else (case Value (key (keys grp ! 0)) of
              Uint64 u \<Rightarrow>
                if length (aggregates grp) > 0 then
                  fillGroupedVars_bind gs
                    (tempMap(u \<mapsto> key (aggregates grp ! (length (aggregates grp) - 1))))
                else fillGroupedVars_bind gs tempMap
            | _ \<Rightarrow> Inl ErrVarNotUid))"

text \<open>
  The loop over the children that aggregates and binds. \<^verbatim>\<open>doneVars\<close> is a map that the
  source updates in place: the model returns it with the error.
\<close>

fun fillGroupedVars_children ::
  "env \<Rightarrow> SubGraph list \<Rightarrow> SubGraph option list \<Rightarrow> SubGraph option \<Rightarrow> groupResult list
     \<Rightarrow> (string \<rightharpoonup> varValue) \<Rightarrow> (string \<rightharpoonup> varValue) \<times> error option" where
  "fillGroupedVars_children E [] pth pathNode gs doneVars = (doneVars, None)"
| "fillGroupedVars_children E (child # rest) pth pathNode gs doneVars =
     (if IgnoreResult (Params child) then
        fillGroupedVars_children E rest pth pathNode gs doneVars
      else
        (case aggregateChild_groups E child gs of
           (gs', Some err) \<Rightarrow> (doneVars, Some err)
         | (gs', None) \<Rightarrow>
             if Var (Params child) = '''' then
               fillGroupedVars_children E rest pth pathNode gs' doneVars
             else
               (case fillGroupedVars_bind gs' Map.empty of
                  Inl err \<Rightarrow> (doneVars, Some err)
                | Inr tempMap \<Rightarrow>
                    fillGroupedVars_children E rest pth pathNode gs'
                      (doneVars(Var (Params child) \<mapsto>
                         \<lparr>Vals = tempMap, path = pth @ [pathNode]\<rparr>)))))"

definition fillGroupedVars ::
  "env \<Rightarrow> SubGraph \<Rightarrow> (string \<rightharpoonup> varValue) \<Rightarrow> SubGraph option list
     \<Rightarrow> (string \<rightharpoonup> varValue) \<times> error option" where
  "fillGroupedVars E sg doneVars pth =
     (if \<not> (\<exists>child \<in> set (Children sg). Var (Params child) \<noteq> '''') then (doneVars, None)
      else
        (case fillGroupedVars_dedup E (Children sg) \<lparr>groups = []\<rparr> None of
           Inl e \<Rightarrow> (doneVars, Some e)
         | Inr (dedupMap, pathNode) \<Rightarrow>
             (case formGroups E dedupMap [] [] \<lparr>group = []\<rparr> of
                Inl e \<Rightarrow> (doneVars, Some e)
              | Inr res \<Rightarrow>
                  fillGroupedVars_children E (Children sg) pth pathNode (group res) doneVars)))"

subsection \<open>processGroupBy\<close>

text \<open>
  The loop over the rows of \<^verbatim>\<open>sg.uidMatrix\<close>, with \<^verbatim>\<open>sg.GroupbyRes\<close> as its state:
  \<^verbatim>\<open>formResult\<close> reads the children only.
\<close>

fun processGroupBy_rows ::
  "env \<Rightarrow> SubGraph \<Rightarrow> uid list list \<Rightarrow> groupResults list \<Rightarrow> groupResults list \<times> error option" where
  "processGroupBy_rows E sg [] out = (out, None)"
| "processGroupBy_rows E sg (uidSet # rows) out =
     (case formResult E sg uidSet of
        (r, Some err) \<Rightarrow> (out, Some err)
      | (r, None) \<Rightarrow> processGroupBy_rows E sg rows (out @ [r]))"

definition set_GroupbyRes :: "SubGraph \<Rightarrow> groupResults list \<Rightarrow> SubGraph" where
  "set_GroupbyRes sg out =
     SubGraph (Params sg) (Attr sg) (SrcFunc sg) (SrcUIDs sg) (DestUIDs sg) (valueMatrix sg)
       (uidMatrix sg) (Children sg) out"

definition set_Children :: "SubGraph \<Rightarrow> SubGraph list \<Rightarrow> SubGraph" where
  "set_Children sg cs =
     SubGraph (Params sg) (Attr sg) (SrcFunc sg) (SrcUIDs sg) (DestUIDs sg) (valueMatrix sg)
       (uidMatrix sg) cs (GroupbyRes sg)"

definition processGroupBy ::
  "env \<Rightarrow> SubGraph \<Rightarrow> (string \<rightharpoonup> varValue) \<Rightarrow> SubGraph option list
     \<Rightarrow> SubGraph \<times> (string \<rightharpoonup> varValue) \<times> error option" where
  "processGroupBy E sg doneVars pth =
     (case processGroupBy_rows E sg (map snd (uidMatrix sg)) (GroupbyRes sg) of
        (out, Some err) \<Rightarrow> (set_GroupbyRes sg out, doneVars, Some err)
      | (out, None) \<Rightarrow>
          (case fillGroupedVars E (set_GroupbyRes sg out) doneVars pth of
             (doneVars', Some err) \<Rightarrow> (set_GroupbyRes sg out, doneVars', Some err)
           | (doneVars', None) \<Rightarrow>
               (set_Children (set_GroupbyRes sg out) (take 0 (Children sg)), doneVars', None)))"

section \<open>Specification-side definitions\<close>

text \<open>
  The values that qualify as input of the reducer for a child and a list of identifiers:
  the identifier is in the child's source set, it has a value, and the conversion of its
  first value succeeds.
\<close>

definition qualifying :: "env \<Rightarrow> SubGraph \<Rightarrow> uid list \<Rightarrow> Val list" where
  "qualifying E child us =
     concat (map (\<lambda>u. if u \<in> set (SrcUIDs child) \<and> Values (valueMatrix child) u \<noteq> [] then
                        (case convertWithBestEffort E (hd (Values (valueMatrix child) u)) (Attr child) of
                           Inl e \<Rightarrow> [] | Inr val \<Rightarrow> [val])
                      else []) us)"

text \<open>
  An order on groups given by a verdict for one position: \<open>Some r\<close> decides the
  comparison as \<open>r\<close>, \<open>None\<close> is a tie. The sizes come first, then the first position
  that is not a tie, keys before aggregates.
\<close>

fun first_decided :: "('a \<Rightarrow> 'a \<Rightarrow> bool option) \<Rightarrow> ('a \<times> 'a) list \<Rightarrow> bool option" where
  "first_decided p [] = None"
| "first_decided p ((x, y) # ps) =
     (case p x y of Some r \<Rightarrow> Some r | None \<Rightarrow> first_decided p ps)"

definition groupLess_by ::
  "(groupPair \<Rightarrow> groupPair \<Rightarrow> bool option) \<Rightarrow> groupResult \<Rightarrow> groupResult \<Rightarrow> bool" where
  "groupLess_by p a b =
     (if length (uids a) \<noteq> length (uids b) then length (uids a) < length (uids b)
      else if length (keys a) \<noteq> length (keys b) then length (keys a) < length (keys b)
      else if length (aggregates a) \<noteq> length (aggregates b)
        then length (aggregates a) < length (aggregates b)
      else (case first_decided p (zip (keys a) (keys b) @ zip (aggregates a) (aggregates b)) of
              Some r \<Rightarrow> r
            | None \<Rightarrow> False))"

text \<open>
  The verdict for one position as the specification words it: the answer of "left less
  than right" when that comparison succeeds, the inverted answer of "right less than
  left" when the first comparison fails and the second succeeds, a tie when both fail.
\<close>

definition position_claimed :: "env \<Rightarrow> groupPair \<Rightarrow> groupPair \<Rightarrow> bool option" where
  "position_claimed E x y =
     (case Less E (key x) (key y) of
        (l, None) \<Rightarrow> Some l
      | (l, Some err) \<Rightarrow>
          (case Less E (key y) (key x) of
             (r, None) \<Rightarrow> Some (\<not> r)
           | (r, Some err') \<Rightarrow> None))"

text \<open>
  The verdict for one position that the source computes: a tie when "left less than
  right" fails; left first when it answers true; otherwise right first when "right less
  than left" answers true (whether or not it reports an error), and a tie when it does
  not.
\<close>

definition position_verdict :: "env \<Rightarrow> groupPair \<Rightarrow> groupPair \<Rightarrow> bool option" where
  "position_verdict E x y =
     (case Less E (key x) (key y) of
        (l, Some err) \<Rightarrow> None
      | (l, None) \<Rightarrow>
          if l then Some True
          else if fst (Less E (key y) (key x)) then Some False
          else None)"

subsection \<open>The groups that the cross product should give\<close>

text \<open>
  For a choice of one entry per bucket, in bucket order: the running intersection of the
  entries' identifier lists (nothing for the empty choice), the keys with their buckets'
  attributes, and the groups of all choices whose running intersection is not empty, one
  per choice.
\<close>

definition chosen_uids :: "groupElements list \<Rightarrow> uid list" where
  "chosen_uids es = (case es of [] \<Rightarrow> []
                     | e # rest \<Rightarrow> foldl IntersectWith (entities e) (map entities rest))"

definition chosen_keys :: "uniq list \<Rightarrow> groupElements list \<Rightarrow> groupPair list" where
  "chosen_keys bs es = map2 (\<lambda>b e. \<lparr>key = ekey e, attr = uattr b\<rparr>) bs es"

definition expected_groups :: "dedup \<Rightarrow> groupResult list" where
  "expected_groups d =
     map (\<lambda>es. \<lparr>keys = chosen_keys (groups d) es, aggregates = [], uids = chosen_uids es\<rparr>)
       (filter (\<lambda>es. chosen_uids es \<noteq> [])
          (product_lists (map (\<lambda>b. map snd (elements b)) (groups d))))"

text \<open>
  The groups below a call that has chosen the keys \<open>gv\<close> with the running intersection
  \<open>cur\<close>, over the buckets that remain.
\<close>

fun expand_groups :: "uid list \<Rightarrow> groupPair list \<Rightarrow> uniq list \<Rightarrow> groupResult list" where
  "expand_groups cur gv [] = (if cur = [] then [] else [\<lparr>keys = gv, aggregates = [], uids = cur\<rparr>])"
| "expand_groups cur gv (b # bs) =
     concat (map (\<lambda>e. expand_groups (IntersectWith cur (entities e))
                         (gv @ [\<lparr>key = ekey e, attr = uattr b\<rparr>]) bs)
               (map snd (elements b)))"

subsection \<open>The mapping that a variable should get\<close>

text \<open>
  The entity identifier that is the sole key of a group, if the group has exactly one key
  and its value is one; and the mapping that sends an identifier to the last aggregate of
  the last group keyed by it that has an aggregate.
\<close>

definition group_uid :: "groupResult \<Rightarrow> uid option" where
  "group_uid g = (case keys g of
                    [kp] \<Rightarrow> (case Value (key kp) of Uint64 u \<Rightarrow> Some u | _ \<Rightarrow> None)
                  | _ \<Rightarrow> None)"

definition binding :: "groupResult list \<Rightarrow> uid \<rightharpoonup> Val" where
  "binding gs u =
     (case filter (\<lambda>g. group_uid g = Some u \<and> aggregates g \<noteq> []) gs of
        [] \<Rightarrow> None
      | h # hs \<Rightarrow> Some (key (last (aggregates (last (h # hs))))))"

text \<open>Keys that cannot name the entity of a variable: several, or one that is no identifier.\<close>

definition bad_keys :: "groupPair list \<Rightarrow> bool" where
  "bad_keys ks = (1 < length ks \<or> (length ks = 1 \<and> (\<forall>u. Value (key (ks ! 0)) \<noteq> Uint64 u)))"

text \<open>
  A child declares the name \<open>x\<close> for the binding loop when it is an aggregation child
  (not a grouping child) whose variable is \<open>x\<close> and is not empty; the position of the last
  child of a list that declares \<open>x\<close>, if there is one.
\<close>

definition declares :: "string \<Rightarrow> SubGraph \<Rightarrow> bool" where
  "declares x c \<longleftrightarrow> \<not> IgnoreResult (Params c) \<and> Var (Params c) \<noteq> '''' \<and> Var (Params c) = x"

fun last_declarer :: "string \<Rightarrow> SubGraph list \<Rightarrow> nat option" where
  "last_declarer x [] = None"
| "last_declarer x (c # cs) =
     (case last_declarer x cs of
        Some j \<Rightarrow> Some (Suc j)
      | None \<Rightarrow> if declares x c then Some 0 else None)"

subsection \<open>What the index should store\<close>

text \<open>
  A sequence of \<^verbatim>\<open>addValue\<close> calls, each given as attribute, value and identifier, run in
  order (a panic ends it); the identifiers that the calls with a given attribute and
  canonical key have added, in call order; the identifier list that an index holds for an
  attribute and a key, read as \<^verbatim>\<open>getGroup\<close> and the map lookup read it; and the shape
  of an index: one bucket per attribute, one entry per key, no entry without identifier.
\<close>

fun addValues :: "env \<Rightarrow> dedup \<Rightarrow> (string \<times> Val \<times> uid) list \<Rightarrow> error + dedup" where
  "addValues E d [] = Inr d"
| "addValues E d ((a, v, u) # calls) =
     (case addValue E d a v u of Inl e \<Rightarrow> Inl e | Inr d' \<Rightarrow> addValues E d' calls)"

definition recorded :: "env \<Rightarrow> (string \<times> Val \<times> uid) list \<Rightarrow> string \<Rightarrow> string \<Rightarrow> uid list" where
  "recorded E calls a k =
     map (\<lambda>(a', v, u). u)
       (filter (\<lambda>(a', v, u). a' = a \<and> addValue_strKey E v = Inr (Some k)) calls)"

definition stored :: "dedup \<Rightarrow> string \<Rightarrow> string \<Rightarrow> uid list" where
  "stored d a k =
     (case getGroup_find (groups d) a (length (groups d)) of
        None \<Rightarrow> []
      | Some i \<Rightarrow> (case map_of (elements (groups d ! i)) k of
                     None \<Rightarrow> []
                   | Some e \<Rightarrow> entities e))"

definition wf_dedup :: "dedup \<Rightarrow> bool" where
  "wf_dedup d \<longleftrightarrow>
     distinct (map uattr (groups d))
     \<and> (\<forall>b\<in>set (groups d). distinct (map fst (elements b))
            \<and> (\<forall>p\<in>set (elements b). entities (snd p) \<noteq> []))"

subsection \<open>Concrete collaborators and inputs\<close>

text \<open>
  An instance of the collaborators for the evaluations at concrete inputs: strings and
  integers marshal, values of one comparable type compare, a task value of type 0 does
  not convert, the reducer keeps the last value, \<^verbatim>\<open>range\<close> visits the entries in the
  order of insertion, and \<^verbatim>\<open>sort.Slice\<close> sorts by insertion.
\<close>

fun insert_by :: "('a \<Rightarrow> 'a \<Rightarrow> bool) \<Rightarrow> 'a \<Rightarrow> 'a list \<Rightarrow> 'a list" where
  "insert_by lt x [] = [x]"
| "insert_by lt x (y # ys) = (if lt x y then x # y # ys else y # insert_by lt x ys)"

definition env0 :: env where
  "env0 = \<lparr>
     Marshal = (\<lambda>v. case Value v of Str s \<Rightarrow> Some s | Int64 w \<Rightarrow> Some (digits (unat w))
                     | _ \<Rightarrow> None),
     Less = (\<lambda>a b. if Tid a \<noteq> Tid b then (False, Some (ErrOther ''different types''))
                    else (case (Value a, Value b) of
                            (Uint64 x, Uint64 y) \<Rightarrow> (x < y, None)
                          | (Int64 x, Int64 y) \<Rightarrow> (sint x < sint y, None)
                          | _ \<Rightarrow> (False, Some (ErrOther ''not comparable'')))),
     convertTo = (\<lambda>tv. Inr \<lparr>Tid = StringID, Value = Str (tvVal tv)\<rparr>),
     convertWithBestEffort = (\<lambda>tv a. if tvType tv = 0 then Inl (ErrOther ''no conversion'')
                                       else Inr \<lparr>Tid = StringID, Value = Str (tvVal tv)\<rparr>),
     isAggregatorFn = (\<lambda>n. n \<in> set [''min'', ''max'', ''sum'', ''avg'']),
     reduce = (\<lambda>n vs. last vs),
     rangeOrder = (\<lambda>gv els. els),
     sortSlice = (\<lambda>lt gs. foldr (insert_by lt) gs [])\<rparr>"

definition uidKey :: "string \<Rightarrow> uid \<Rightarrow> groupPair" where
  "uidKey a u = \<lparr>key = \<lparr>Tid = UidID, Value = Uint64 u\<rparr>, attr = a\<rparr>"

definition countChild :: SubGraph where
  "countChild = SubGraph \<lparr>Alias = '''', DoCount = True, IgnoreResult = False, Var = ''''\<rparr>
     ''uid'' None [] [] [] [] [] []"

definition maxChild :: SubGraph where
  "maxChild = SubGraph \<lparr>Alias = '''', DoCount = False, IgnoreResult = False, Var = ''''\<rparr>
     ''age'' (Some \<lparr>Name = ''max''\<rparr>) [1, 2] [] [(1, [\<lparr>tvVal = ''x'', tvType = 0\<rparr>])] [] [] []"

definition plainChild :: SubGraph where
  "plainChild = SubGraph \<lparr>Alias = '''', DoCount = False, IgnoreResult = False, Var = ''''\<rparr>
     ''name'' None [1, 2] [] [] [] [] []"

definition dedupAB :: dedup where
  "dedupAB = \<lparr>groups =
     [\<lparr>elements = [(''x'', \<lparr>entities = [1, 2], ekey = \<lparr>Tid = StringID, Value = Str ''x''\<rparr>\<rparr>),
                   (''y'', \<lparr>entities = [3], ekey = \<lparr>Tid = StringID, Value = Str ''y''\<rparr>\<rparr>)],
       uattr = ''A''\<rparr>,
      \<lparr>elements = [(''p'', \<lparr>entities = [1, 3], ekey = \<lparr>Tid = StringID, Value = Str ''p''\<rparr>\<rparr>),
                   (''q'', \<lparr>entities = [2], ekey = \<lparr>Tid = StringID, Value = Str ''q''\<rparr>\<rparr>)],
       uattr = ''B''\<rparr>]\<rparr>"

definition strKey :: "string \<Rightarrow> string \<Rightarrow> groupPair" where
  "strKey a s = \<lparr>key = \<lparr>Tid = StringID, Value = Str s\<rparr>, attr = a\<rparr>"

definition keyChildVar :: SubGraph where
  "keyChildVar = SubGraph \<lparr>Alias = '''', DoCount = False, IgnoreResult = True, Var = ''v''\<rparr>
     ''name'' None [1] [] [(1, [\<lparr>tvVal = ''x'', tvType = 1\<rparr>])] [] [] []"

definition friendChild :: SubGraph where
  "friendChild = SubGraph \<lparr>Alias = '''', DoCount = False, IgnoreResult = True, Var = ''''\<rparr>
     ''friend'' None [1, 2] [10, 11] [] [(1, [10, 11]), (2, [10])] [] []"

definition countVarChild :: SubGraph where
  "countVarChild = SubGraph \<lparr>Alias = '''', DoCount = True, IgnoreResult = False, Var = ''c''\<rparr>
     ''uid'' None [] [] [] [] [] []"

definition node :: "SubGraph list \<Rightarrow> SubGraph" where
  "node cs = SubGraph \<lparr>Alias = '''', DoCount = False, IgnoreResult = False, Var = ''''\<rparr>
     ''q'' None [] [] [] [(0, [1, 2])] cs []"

definition nameChild :: SubGraph where
  "nameChild = SubGraph \<lparr>Alias = '''', DoCount = False, IgnoreResult = True, Var = ''''\<rparr>
     ''name'' None [1] [] [(1, [\<lparr>tvVal = ''x'', tvType = 1\<rparr>])] [] [] []"

definition maxVarChild :: SubGraph where
  "maxVarChild = SubGraph \<lparr>Alias = '''', DoCount = False, IgnoreResult = False, Var = ''m''\<rparr>
     ''age'' (Some \<lparr>Name = ''max''\<rparr>) [1, 2] [] [(2, [\<lparr>tvVal = ''30'', tvType = 1\<rparr>])] [] [] []"

definition sgM :: SubGraph where
  "sgM = node [friendChild, maxVarChild]"

definition callsNames :: "(string \<times> Val \<times> uid) list" where
  "callsNames = [(''name'', \<lparr>Tid = StringID, Value = Str ''a''\<rparr>, 1),
                 (''name'', \<lparr>Tid = StringID, Value = Str ''a''\<rparr>, 2),
                 (''score'', \<lparr>Tid = FloatID, Value = Opaque 0\<rparr>, 2),
                 (''name'', \<lparr>Tid = StringID, Value = Str ''b''\<rparr>, 3)]"

definition callsFriends :: "(string \<times> Val \<times> uid) list" where
  "callsFriends = [(''friend'', \<lparr>Tid = UidID, Value = Uint64 10\<rparr>, 1),
                   (''friend'', \<lparr>Tid = UidID, Value = Uint64 11\<rparr>, 1)]"

definition sgC :: SubGraph where
  "sgC = node [friendChild, countVarChild, maxVarChild]"

section \<open>Properties\<close>

subsection \<open>Auxiliary facts\<close>

lemma aggregateGroup_loop_qualifying:
  "aggregateGroup_loop E child us ag = ag\<lparr>applied := applied ag @ qualifying E child us\<rparr>"
  by (induction us arbitrary: ag) (auto simp: qualifying_def Apply_def split: sum.splits)

lemma aggregateChild_groups_not_sentinel:
  "snd (aggregateChild_groups E child gs) \<noteq> Some ErrEmptyVal"
  by (induction gs) (auto split: prod.splits)

lemma formResult_children_not_sentinel:
  "snd (formResult_children E cs gs) \<noteq> Some ErrEmptyVal"
proof (induction cs arbitrary: gs)
  case Nil
  then show ?case by simp
next
  case (Cons c cs)
  show ?case
  proof (cases "IgnoreResult (Params c)")
    case True
    then show ?thesis using Cons by simp
  next
    case False
    obtain gs' r where ag: "aggregateChild_groups E c gs = (gs', r)" by force
    have "r \<noteq> Some ErrEmptyVal" using aggregateChild_groups_not_sentinel[of E c gs] ag by simp
    then show ?thesis using False ag Cons by (cases r) auto
  qed
qed

lemma getGroup_find_None:
  "n \<le> length gs \<Longrightarrow> getGroup_find gs a n = None \<longleftrightarrow> a \<notin> uattr ` set (take n gs)"
  by (induction n) (auto simp: take_Suc_conv_app_nth)

lemma getGroup_find_Some:
  "getGroup_find gs a n = Some i \<Longrightarrow> i < n \<and> uattr (gs ! i) = a"
  by (induction n) (auto split: if_splits simp: less_Suc_eq)

lemma first_decided_append:
  "first_decided p (ps @ qs) =
     (case first_decided p ps of Some r \<Rightarrow> Some r | None \<Rightarrow> first_decided p qs)"
  by (induction ps) (auto split: option.splits)

lemma groupLess_loop_first_decided:
  "length as = length bs \<Longrightarrow>
   groupLess_loop E as bs i = first_decided (position_verdict E) (drop i (zip as bs))"
proof (induction E as bs i rule: groupLess_loop.induct)
  case (1 E as bs i)
  show ?case
  proof (cases "i < length as")
    case False
    then show ?thesis using 1(3) by (subst groupLess_loop.simps) simp
  next
    case True
    then have d: "drop i (zip as bs) = (as ! i, bs ! i) # drop (Suc i) (zip as bs)"
      using 1(3) by (simp add: Cons_nth_drop_Suc [symmetric])
    obtain l e where L: "Less E (key (as ! i)) (key (bs ! i)) = (l, e)" by force
    obtain l' e' where L': "Less E (key (bs ! i)) (key (as ! i)) = (l', e')" by force
    have pv: "position_verdict E (as ! i) (bs ! i) =
                (case e of Some err \<Rightarrow> None
                 | None \<Rightarrow> if l then Some True else if l' then Some False else None)"
      using L L' by (simp add: position_verdict_def split: option.splits)
    show ?thesis
    proof (cases e)
      case (Some err)
      then show ?thesis using True L d pv 1(2)[OF True L[symmetric] ] 1(3)
        by (subst groupLess_loop.simps) simp
    next
      case None
      show ?thesis
      proof (cases "l \<or> l'")
        case True
        then show ?thesis using \<open>i < length as\<close> L L' d None pv
          by (subst groupLess_loop.simps) auto
      next
        case False
        then have "groupLess_loop E as bs (Suc i) =
            first_decided (position_verdict E) (drop (Suc i) (zip as bs))"
          using 1(1)[OF \<open>i < length as\<close> L[symmetric] _ _ L'[symmetric]] None 1(3) by simp
        then show ?thesis using \<open>i < length as\<close> L L' d None False pv
          by (subst groupLess_loop.simps) auto
      qed
    qed
  qed
qed

subsection \<open>The order on groups\<close>

text \<open>
  C4, as the specification words it, fails: the source does not try "right less than
  left" when "left less than right" reports an error, and it treats a position as tied
  also when neither comparison reports an error and neither answers true. With two keys,
  the first equal on both sides and the second smaller on the left, the source answers
  true, and the order of the claim answers false at the first position.
\<close>

theorem groupLess_claimed_counterexample:
  "groupLess env0
     \<lparr>keys = [uidKey ''a'' 1, uidKey ''b'' 1], aggregates = [], uids = [7]\<rparr>
     \<lparr>keys = [uidKey ''a'' 1, uidKey ''b'' 2], aggregates = [], uids = [8]\<rparr>
   \<and> \<not> groupLess_by (position_claimed env0)
     \<lparr>keys = [uidKey ''a'' 1, uidKey ''b'' 1], aggregates = [], uids = [7]\<rparr>
     \<lparr>keys = [uidKey ''a'' 1, uidKey ''b'' 2], aggregates = [], uids = [8]\<rparr>
   \<and> Less env0 (key (uidKey ''a'' 1)) (key (uidKey ''a'' 1)) = (False, None)"
  by (simp add: groupLess_def groupLess_by_def position_claimed_def env0_def uidKey_def
        groupLess_loop.simps)

text \<open>
  C4, amended: \<^verbatim>\<open>groupLess\<close> compares the numbers of identifiers, then of keys, then of
  aggregates, each only on a tie before it; then the key pairs in order and after them
  the aggregate pairs, where a position is a tie when "left less than right" reports an
  error, puts the left group first when it answers true, and otherwise puts the right
  group first when "right less than left" answers true and is a tie when it does not;
  the answer is false when everything ties.
\<close>

theorem groupLess_refines_order:
  "groupLess E a b = groupLess_by (position_verdict E) a b"
  by (simp add: groupLess_def groupLess_by_def groupLess_loop_first_decided first_decided_append
        split: option.splits)

theorem groupLess_refines_order_witness:
  "groupLess env0
     \<lparr>keys = [uidKey ''a'' 1, uidKey ''b'' 1], aggregates = [], uids = [7]\<rparr>
     \<lparr>keys = [uidKey ''a'' 1, uidKey ''b'' 2], aggregates = [], uids = [8]\<rparr>
   \<and> groupLess_by (position_verdict env0)
     \<lparr>keys = [uidKey ''a'' 1, uidKey ''b'' 1], aggregates = [], uids = [7]\<rparr>
     \<lparr>keys = [uidKey ''a'' 1, uidKey ''b'' 2], aggregates = [], uids = [8]\<rparr>"
  using groupLess_refines_order [of env0
     "\<lparr>keys = [uidKey ''a'' 1, uidKey ''b'' 1], aggregates = [], uids = [7]\<rparr>"
     "\<lparr>keys = [uidKey ''a'' 1, uidKey ''b'' 2], aggregates = [], uids = [8]\<rparr>"]
  by (simp add: groupLess_by_def position_verdict_def env0_def uidKey_def)

subsection \<open>Aggregation of one child\<close>

text \<open>
  C5: for a child that requests a count, \<^verbatim>\<open>aggregateChild\<close> returns a usage error exactly
  when the child's attribute is not \<^verbatim>\<open>uid\<close>, and then leaves the group as it was; when
  the attribute is \<^verbatim>\<open>uid\<close> it returns no error and appends one pair of type
  \<^verbatim>\<open>IntID\<close> whose value is the number of identifiers of the group (read as a signed
  64-bit integer, for every length a Go slice can have), named \<^verbatim>\<open>count\<close> when the alias
  is empty and by the alias otherwise.
\<close>

theorem aggregateChild_count:
  assumes "DoCount (Params child)"
  shows "((\<exists>e. snd (aggregateChild E grp child) = Some e \<and> usage_error e) \<longleftrightarrow> Attr child \<noteq> ''uid'')
       \<and> (snd (aggregateChild E grp child) \<noteq> None \<longrightarrow> fst (aggregateChild E grp child) = grp)
       \<and> (Attr child = ''uid'' \<longrightarrow>
            aggregateChild E grp child =
              (grp\<lparr>aggregates := aggregates grp @
                 [\<lparr>key = \<lparr>Tid = IntID, Value = Int64 (of_nat (length (uids grp)))\<rparr>,
                   attr = (if Alias (Params child) = '''' then ''count''
                           else Alias (Params child))\<rparr>]\<rparr>,
               None)
            \<and> (length (uids grp) < 2 ^ 63 \<longrightarrow>
                 sint (of_nat (length (uids grp)) :: 64 word) = int (length (uids grp))))"
proof -
  have w: "length (uids grp) < 2 ^ 63 \<Longrightarrow>
           sint (of_nat (length (uids grp)) :: 64 word) = int (length (uids grp))"
    by (simp add: signed_of_nat signed_take_bit_int_eq_self)
  show ?thesis using assms w
    by (auto simp: aggregateChild_def usage_error_def Let_def)
qed

theorem aggregateChild_count_witness:
  "DoCount (Params countChild) \<and> Attr countChild = ''uid''
   \<and> length (uids \<lparr>keys = [], aggregates = [], uids = [1, 2]\<rparr>) < 2 ^ 63
   \<and> aggregateChild env0 \<lparr>keys = [], aggregates = [], uids = [1, 2]\<rparr> countChild
     = (\<lparr>keys = [], aggregates = [\<lparr>key = \<lparr>Tid = IntID, Value = Int64 2\<rparr>, attr = ''count''\<rparr>],
         uids = [1, 2]\<rparr>, None)"
  using aggregateChild_count [of countChild env0 "\<lparr>keys = [], aggregates = [], uids = [1, 2]\<rparr>"]
  by (simp add: countChild_def)

text \<open>
  C10: for a child that does not request a count and whose source function is nil or is
  not an aggregate function, \<^verbatim>\<open>aggregateChild\<close> returns nil and the group is as it was:
  its aggregates, keys and identifiers are untouched.
\<close>

theorem aggregateChild_no_aggregate:
  assumes "\<not> DoCount (Params child)"
      and "SrcFunc child = None \<or> (\<exists>f. SrcFunc child = Some f \<and> \<not> isAggregatorFn E (Name f))"
  shows "aggregateChild E grp child = (grp, None)"
  using assms by (auto simp: aggregateChild_def)

theorem aggregateChild_no_aggregate_witness:
  "\<not> DoCount (Params plainChild) \<and> SrcFunc plainChild = None
   \<and> aggregateChild env0 \<lparr>keys = [uidKey ''a'' 1], aggregates = [], uids = [1, 2]\<rparr> plainChild
     = (\<lparr>keys = [uidKey ''a'' 1], aggregates = [], uids = [1, 2]\<rparr>, None)"
  using aggregateChild_no_aggregate [of plainChild env0
          "\<lparr>keys = [uidKey ''a'' 1], aggregates = [], uids = [1, 2]\<rparr>"]
  by (simp add: plainChild_def)

subsection \<open>The deduplication index\<close>

text \<open>
  C6: when \<^verbatim>\<open>addValue\<close> is called with a value that is not an entity reference and whose
  marshaling fails, no error is reported, and the index is the one the bucket lookup
  leaves: unchanged when it has a bucket for the attribute, and extended by that
  attribute's new bucket, without entries, when it has none. No entry is created or
  changed and no identifier is recorded.
\<close>

theorem addValue_marshal_failure:
  assumes "Tid v \<noteq> UidID" and "Marshal E v = None"
  shows "addValue E d a v u =
           Inr (if a \<in> uattr ` set (groups d) then d
                else d\<lparr>groups := groups d @ [\<lparr>elements = [], uattr = a\<rparr>]\<rparr>)"
proof (cases "getGroup_find (groups d) a (length (groups d))")
  case None
  then have "a \<notin> uattr ` set (groups d)"
    using getGroup_find_None[of "length (groups d)" "groups d" a] by simp
  then show ?thesis using assms None by (simp add: addValue_def getGroup_def addValue_strKey_def)
next
  case (Some i)
  then have "i < length (groups d) \<and> uattr (groups d ! i) = a" by (rule getGroup_find_Some)
  then have "a \<in> uattr ` set (groups d)" by (metis imageI nth_mem)
  then show ?thesis using assms Some by (simp add: addValue_def getGroup_def addValue_strKey_def)
qed

theorem addValue_marshal_failure_witness:
  "Tid \<lparr>Tid = FloatID, Value = Opaque 0\<rparr> \<noteq> UidID
   \<and> Marshal env0 \<lparr>Tid = FloatID, Value = Opaque 0\<rparr> = None
   \<and> addValue env0
       \<lparr>groups = [\<lparr>elements = [(''x'', \<lparr>entities = [1], ekey = \<lparr>Tid = StringID, Value = Str ''x''\<rparr>\<rparr>)],
                   uattr = ''age''\<rparr>]\<rparr>
       ''age'' \<lparr>Tid = FloatID, Value = Opaque 0\<rparr> 2
     = Inr \<lparr>groups = [\<lparr>elements = [(''x'', \<lparr>entities = [1], ekey = \<lparr>Tid = StringID, Value = Str ''x''\<rparr>\<rparr>)],
                       uattr = ''age''\<rparr>]\<rparr>"
  using addValue_marshal_failure [of "\<lparr>Tid = FloatID, Value = Opaque 0\<rparr>" env0
     "\<lparr>groups = [\<lparr>elements = [(''x'', \<lparr>entities = [1], ekey = \<lparr>Tid = StringID, Value = Str ''x''\<rparr>\<rparr>)],
                   uattr = ''age''\<rparr>]\<rparr>" "''age''" 2]
  by (simp add: env0_def)

subsection \<open>The cross product of the buckets\<close>

lemma IntersectWith_Nil [simp]: "IntersectWith [] v = []"
  by (simp add: IntersectWith_def)

lemma expand_Nil [simp]: "expand_groups [] gv bs = []"
  by (induction bs arbitrary: gv) auto

lemma expand_product:
  "expand_groups cur gv bs =
     map (\<lambda>es. \<lparr>keys = gv @ chosen_keys bs es, aggregates = [],
                uids = foldl IntersectWith cur (map entities es)\<rparr>)
       (filter (\<lambda>es. foldl IntersectWith cur (map entities es) \<noteq> [])
          (product_lists (map (\<lambda>b. map snd (elements b)) bs)))"
proof (induction bs arbitrary: cur gv)
  case Nil
  then show ?case by (simp add: chosen_keys_def)
next
  case (Cons b bs)
  show ?case
    by (simp add: Cons map_concat filter_concat filter_map comp_def chosen_keys_def)
qed

lemma expected_groups_expand:
  "expected_groups d =
     (case groups d of [] \<Rightarrow> []
      | b # bs \<Rightarrow> concat (map (\<lambda>e. expand_groups (entities e) [\<lparr>key = ekey e, attr = uattr b\<rparr>] bs)
                           (map snd (elements b))))"
  by (cases "groups d")
     (simp_all add: expected_groups_def chosen_uids_def expand_product map_concat filter_concat
        filter_map comp_def chosen_keys_def)

lemma mset_concat_map:
  "mset (concat (map f xs)) = (\<Sum>x\<in>#mset xs. mset (f x))"
  by (induction xs) auto

lemma fold_steps:
  assumes "\<And>x res. x \<in> set xs \<Longrightarrow>
             \<exists>new. step x res = Inr (res\<lparr>group := group res @ new\<rparr>) \<and> mset new = G x"
  shows "\<exists>new. fold (\<lambda>x r. case r of Inl e \<Rightarrow> Inl e | Inr res' \<Rightarrow> step x res') xs (Inr res)
                  = Inr (res\<lparr>group := group res @ new\<rparr>)
              \<and> mset new = (\<Sum>x\<in>#mset xs. G x)"
  using assms
proof (induction xs arbitrary: res)
  case Nil
  then show ?case by simp
next
  case (Cons x xs)
  obtain new1 where n1: "step x res = Inr (res\<lparr>group := group res @ new1\<rparr>)" "mset new1 = G x"
    using Cons.prems[of x res] by auto
  obtain new2 where n2:
    "fold (\<lambda>x r. case r of Inl e \<Rightarrow> Inl e | Inr res' \<Rightarrow> step x res') xs
        (Inr (res\<lparr>group := group res @ new1\<rparr>))
       = Inr (res\<lparr>group := group res @ new1, group := group (res\<lparr>group := group res @ new1\<rparr>) @ new2\<rparr>)"
    "mset new2 = (\<Sum>x\<in>#mset xs. G x)"
    using Cons.IH[of "res\<lparr>group := group res @ new1\<rparr>"] Cons.prems by auto
  show ?case
    by (rule exI[of _ "new1 @ new2"]) (simp add: n1 n2)
qed

lemma formGroups_deeper:
  assumes perm: "\<And>gv els. mset (rangeOrder E gv els) = mset els"
  shows "0 < length gv \<Longrightarrow> length gv \<le> length (groups d) \<Longrightarrow>
     \<exists>new. formGroups E d cur gv res = Inr (res\<lparr>group := group res @ new\<rparr>)
          \<and> mset new = mset (expand_groups cur gv (drop (length gv) (groups d)))"
proof (induction "length (groups d) - length gv" arbitrary: cur gv res)
  case 0
  then have eq: "length gv = length (groups d)" by simp
  show ?case
  proof (cases "cur = []")
    case True
    then show ?thesis using 0 eq by (subst formGroups.simps) simp
  next
    case False
    then show ?thesis using 0 eq by (subst formGroups.simps) simp
  qed
next
  case (Suc n)
  then have lt: "length gv < length (groups d)" by simp
  show ?case
  proof (cases "cur = []")
    case True
    then show ?thesis using Suc.prems by (subst formGroups.simps) simp
  next
    case False
    let ?b = "groups d ! length gv"
    let ?step = "\<lambda>kv res'. formGroups E d (IntersectWith cur (entities (snd kv)))
                     (gv @ [\<lparr>key = ekey (snd kv), attr = uattr ?b\<rparr>]) res'"
    let ?G = "\<lambda>kv. mset (expand_groups (IntersectWith cur (entities (snd kv)))
                     (gv @ [\<lparr>key = ekey (snd kv), attr = uattr ?b\<rparr>])
                     (drop (Suc (length gv)) (groups d)))"
    have step: "\<exists>new. ?step kv res' = Inr (res'\<lparr>group := group res' @ new\<rparr>) \<and> mset new = ?G kv"
      for kv res'
      using Suc.hyps(1)[of "gv @ [\<lparr>key = ekey (snd kv), attr = uattr ?b\<rparr>]"
              "IntersectWith cur (entities (snd kv))" res'] Suc.hyps(2) lt
      by simp
    obtain new where new:
      "fold (\<lambda>kv r. case r of Inl e \<Rightarrow> Inl e | Inr res' \<Rightarrow> ?step kv res')
         (rangeOrder E gv (elements ?b)) (Inr res) = Inr (res\<lparr>group := group res @ new\<rparr>)"
      "mset new = (\<Sum>kv\<in>#mset (rangeOrder E gv (elements ?b)). ?G kv)"
      using fold_steps[of "rangeOrder E gv (elements ?b)" ?step ?G res] step by blast
    have ne: "groups d \<noteq> []" using lt by auto
    have fg: "formGroups E d cur gv res = Inr (res\<lparr>group := group res @ new\<rparr>)"
      using False lt ne Suc.prems new(1) by (subst formGroups.simps) simp
    have dr: "drop (length gv) (groups d) = ?b # drop (Suc (length gv)) (groups d)"
      using lt by (simp add: Cons_nth_drop_Suc)
    have "mset new = mset (expand_groups cur gv (drop (length gv) (groups d)))"
      by (simp add: new(2) perm dr mset_concat_map image_mset.compositionality comp_def
            flip: mset_map)
    then show ?thesis using fg by blast
  qed
qed

lemma formGroups_top:
  assumes perm: "\<And>gv els. mset (rangeOrder E gv els) = mset els"
  shows "\<exists>new. formGroups E d [] [] res = Inr (res\<lparr>group := group res @ new\<rparr>)
          \<and> mset new = mset (expected_groups d)"
proof (cases "groups d")
  case Nil
  then show ?thesis by (subst formGroups.simps) (simp add: expected_groups_expand)
next
  case (Cons b bs)
  let ?step = "\<lambda>kv res'. formGroups E d (entities (snd kv))
                     [\<lparr>key = ekey (snd kv), attr = uattr b\<rparr>] res'"
  let ?G = "\<lambda>kv. mset (expand_groups (entities (snd kv)) [\<lparr>key = ekey (snd kv), attr = uattr b\<rparr>] bs)"
  have step: "\<exists>new. ?step kv res' = Inr (res'\<lparr>group := group res' @ new\<rparr>) \<and> mset new = ?G kv"
    for kv res'
    using formGroups_deeper[OF perm, of "[\<lparr>key = ekey (snd kv), attr = uattr b\<rparr>]" d
            "entities (snd kv)" res'] Cons
    by simp
  obtain new where new:
    "fold (\<lambda>kv r. case r of Inl e \<Rightarrow> Inl e | Inr res' \<Rightarrow> ?step kv res')
       (rangeOrder E [] (elements b)) (Inr res) = Inr (res\<lparr>group := group res @ new\<rparr>)"
    "mset new = (\<Sum>kv\<in>#mset (rangeOrder E [] (elements b)). ?G kv)"
    using fold_steps[of "rangeOrder E [] (elements b)" ?step ?G res] step by blast
  have fg: "formGroups E d [] [] res = Inr (res\<lparr>group := group res @ new\<rparr>)"
    using Cons new(1) by (subst formGroups.simps) simp
  have "mset new = mset (expected_groups d)"
    by (simp add: new(2) perm expected_groups_expand Cons mset_concat_map
          image_mset.compositionality comp_def flip: mset_map)
  then show ?thesis using fg by blast
qed


lemma set_foldl_IntersectWith:
  "set (foldl IntersectWith cur xs) = set cur \<inter> (\<Inter>x\<in>set xs. set x)"
  by (induction xs arbitrary: cur) (auto simp: IntersectWith_def)

lemma chosen_keys_attr:
  "length bs = length es \<Longrightarrow> map attr (chosen_keys bs es) = map uattr bs"
  by (induction bs es rule: list_induct2) (auto simp: chosen_keys_def)

lemma chosen_keys_key:
  "length bs = length es \<Longrightarrow> map key (chosen_keys bs es) = map ekey es"
  by (induction bs es rule: list_induct2) (auto simp: chosen_keys_def)

lemma expected_groups_member:
  assumes "g \<in> set (expected_groups d)"
  shows "length (keys g) = length (groups d) \<and> map attr (keys g) = map uattr (groups d)
       \<and> uids g \<noteq> []
       \<and> (\<exists>es. list_all2 (\<lambda>e b. e \<in> snd ` set (elements b)) es (groups d)
              \<and> map key (keys g) = map ekey es \<and> uids g = chosen_uids es
              \<and> set (uids g) = (\<Inter>e\<in>set es. set (entities e)))"
proof -
  from assms obtain es where es:
    "es \<in> set (product_lists (map (\<lambda>b. map snd (elements b)) (groups d)))"
    "chosen_uids es \<noteq> []"
    "g = \<lparr>keys = chosen_keys (groups d) es, aggregates = [], uids = chosen_uids es\<rparr>"
    by (auto simp: expected_groups_def)
  from es(1) have l2: "list_all2 (\<lambda>e b. e \<in> snd ` set (elements b)) es (groups d)"
    by (simp add: product_lists_set list_all2_map2)
  then have len: "length es = length (groups d)" by (rule list_all2_lengthD)
  have k1: "map attr (chosen_keys (groups d) es) = map uattr (groups d)"
    using len by (simp add: chosen_keys_attr)
  have k2: "map key (chosen_keys (groups d) es) = map ekey es"
    using len by (simp add: chosen_keys_key)
  have ne: "es \<noteq> []" using es(2) by (auto simp: chosen_uids_def)
  have s: "set (chosen_uids es) = (\<Inter>e\<in>set es. set (entities e))"
    using ne by (cases es) (auto simp: chosen_uids_def set_foldl_IntersectWith)
  show ?thesis using es(2,3) l2 len k1 k2 s by (auto simp: chosen_keys_def)
qed

text \<open>
  C1: whatever the order in which \<^verbatim>\<open>range\<close> visits the entries of a bucket (each entry
  once), \<^verbatim>\<open>formGroups\<close> called with an empty identifier list and no keys returns, and
  what it appends is, as a multiset, one group for each choice of one entry per bucket
  whose running intersection is not empty. Every appended group has one key per bucket,
  in bucket order and with the bucket's attribute, and its identifier list is not empty
  and is the intersection of the chosen entries' lists. With no bucket nothing is
  appended. This holds for every index, and so for those built by \<^verbatim>\<open>addValue\<close>.
\<close>

theorem formGroups_cross_product:
  assumes "\<forall>gv els. mset (rangeOrder E gv els) = mset els"
  shows "\<exists>new. formGroups E d [] [] res = Inr (res\<lparr>group := group res @ new\<rparr>)
           \<and> mset new = mset (expected_groups d)
           \<and> (\<forall>g\<in>set new. length (keys g) = length (groups d)
                  \<and> map attr (keys g) = map uattr (groups d) \<and> uids g \<noteq> []
                  \<and> (\<exists>es. list_all2 (\<lambda>e b. e \<in> snd ` set (elements b)) es (groups d)
                        \<and> map key (keys g) = map ekey es \<and> uids g = chosen_uids es
                        \<and> set (uids g) = (\<Inter>e\<in>set es. set (entities e))))
           \<and> (groups d = [] \<longrightarrow> new = [])"
proof -
  obtain new where new: "formGroups E d [] [] res = Inr (res\<lparr>group := group res @ new\<rparr>)"
    "mset new = mset (expected_groups d)"
    using formGroups_top[of E d res] assms by blast
  have "set new = set (expected_groups d)" using new(2) by (rule mset_eq_setD)
  then have m: "\<forall>g\<in>set new. length (keys g) = length (groups d)
                  \<and> map attr (keys g) = map uattr (groups d) \<and> uids g \<noteq> []
                  \<and> (\<exists>es. list_all2 (\<lambda>e b. e \<in> snd ` set (elements b)) es (groups d)
                        \<and> map key (keys g) = map ekey es \<and> uids g = chosen_uids es
                        \<and> set (uids g) = (\<Inter>e\<in>set es. set (entities e)))"
    using expected_groups_member[of _ d] by blast
  have z: "groups d = [] \<longrightarrow> new = []"
    using new(2) by (auto simp: expected_groups_expand)
  show ?thesis using new m z by blast
qed

lemma formGroups_dedupAB:
  "formGroups env0 dedupAB [] [] \<lparr>group = []\<rparr> =
     Inr \<lparr>group = [\<lparr>keys = [strKey ''A'' ''x'', strKey ''B'' ''p''], aggregates = [], uids = [1]\<rparr>,
                   \<lparr>keys = [strKey ''A'' ''x'', strKey ''B'' ''q''], aggregates = [], uids = [2]\<rparr>,
                   \<lparr>keys = [strKey ''A'' ''y'', strKey ''B'' ''p''], aggregates = [], uids = [3]\<rparr>]\<rparr>"
  by (simp add: formGroups.simps dedupAB_def env0_def strKey_def IntersectWith_def)

theorem formGroups_cross_product_witness:
  "(\<forall>gv els. mset (rangeOrder env0 gv els) = mset els)
   \<and> formGroups env0 dedupAB [] [] \<lparr>group = []\<rparr> =
     Inr \<lparr>group = [\<lparr>keys = [strKey ''A'' ''x'', strKey ''B'' ''p''], aggregates = [], uids = [1]\<rparr>,
                   \<lparr>keys = [strKey ''A'' ''x'', strKey ''B'' ''q''], aggregates = [], uids = [2]\<rparr>,
                   \<lparr>keys = [strKey ''A'' ''y'', strKey ''B'' ''p''], aggregates = [], uids = [3]\<rparr>]\<rparr>
   \<and> expected_groups dedupAB =
       [\<lparr>keys = [strKey ''A'' ''x'', strKey ''B'' ''p''], aggregates = [], uids = [1]\<rparr>,
                   \<lparr>keys = [strKey ''A'' ''x'', strKey ''B'' ''q''], aggregates = [], uids = [2]\<rparr>,
                   \<lparr>keys = [strKey ''A'' ''y'', strKey ''B'' ''p''], aggregates = [], uids = [3]\<rparr>]"
proof -
  have p: "\<forall>gv els. mset (rangeOrder env0 gv els) = mset els" by (simp add: env0_def)
  have e: "expected_groups dedupAB =
       [\<lparr>keys = [strKey ''A'' ''x'', strKey ''B'' ''p''], aggregates = [], uids = [1]\<rparr>,
                   \<lparr>keys = [strKey ''A'' ''x'', strKey ''B'' ''q''], aggregates = [], uids = [2]\<rparr>,
                   \<lparr>keys = [strKey ''A'' ''y'', strKey ''B'' ''p''], aggregates = [], uids = [3]\<rparr>]"
    by (simp add: expected_groups_def dedupAB_def chosen_uids_def chosen_keys_def strKey_def
          IntersectWith_def)
  show ?thesis
    using formGroups_cross_product [OF p, of dedupAB "\<lparr>group = []\<rparr>"] p e formGroups_dedupAB
    by simp
qed

subsection \<open>formGroups returns, and every group has one key per bucket\<close>

lemma fold_invariant:
  assumes "\<And>x res. x \<in> set xs \<Longrightarrow> P res \<Longrightarrow> \<exists>res'. step x res = Inr res' \<and> P res'"
      and "P res"
  shows "\<exists>res'. fold (\<lambda>x r. case r of Inl e \<Rightarrow> Inl e | Inr res' \<Rightarrow> step x res') xs (Inr res)
                  = Inr res' \<and> P res'"
  using assms
proof (induction xs arbitrary: res)
  case Nil
  then show ?case by simp
next
  case (Cons x xs)
  obtain res1 where r1: "step x res = Inr res1" "P res1"
    using Cons.prems(1)[of x res] Cons.prems(2) by auto
  show ?case using Cons.IH[of res1] Cons.prems(1) r1 by simp
qed

lemma formGroups_loop:
  assumes "length gv < length (groups d)" and "gv = [] \<or> cur \<noteq> []"
  shows "formGroups E d cur gv res =
           fold (\<lambda>kv r. case r of Inl e \<Rightarrow> Inl e
                  | Inr res' \<Rightarrow>
                      formGroups E d
                        (if gv \<noteq> [] then IntersectWith cur (entities (snd kv))
                         else entities (snd kv))
                        (gv @ [\<lparr>key = ekey (snd kv), attr = uattr (groups d ! length gv)\<rparr>])
                        res')
             (rangeOrder E gv (elements (groups d ! length gv))) (Inr res)"
  using assms by (subst formGroups.simps) auto

lemma formGroups_keys:
  assumes "length gv \<le> length (groups d)"
      and "\<forall>g\<in>set (group res). length (keys g) = length (groups d) \<and> 0 < length (keys g)"
  shows "\<exists>res'. formGroups E d cur gv res = Inr res'
           \<and> (\<forall>g\<in>set (group res'). length (keys g) = length (groups d) \<and> 0 < length (keys g))"
  using assms
proof (induction "length (groups d) - length gv" arbitrary: cur gv res)
  case 0
  then show ?case by (subst formGroups.simps) auto
next
  case (Suc n)
  then have lt: "length gv < length (groups d)" by simp
  let ?P = "\<lambda>r. \<forall>g\<in>set (group r). length (keys g) = length (groups d) \<and> 0 < length (keys g)"
  let ?b = "groups d ! length gv"
  let ?step = "\<lambda>kv res'. formGroups E d
                  (if gv \<noteq> [] then IntersectWith cur (entities (snd kv)) else entities (snd kv))
                  (gv @ [\<lparr>key = ekey (snd kv), attr = uattr ?b\<rparr>]) res'"
  have step: "\<exists>res'. ?step kv r = Inr res' \<and> ?P res'" if p: "?P r" for kv r
  proof -
    let ?gv = "gv @ [\<lparr>key = ekey (snd kv), attr = uattr ?b\<rparr>]"
    have a: "n = length (groups d) - length ?gv" using Suc.hyps(2) by simp
    have b: "length ?gv \<le> length (groups d)" using lt by simp
    show ?thesis by (rule Suc.hyps(1)[OF a b p])
  qed
  have f: "\<exists>res'. fold (\<lambda>kv r. case r of Inl e \<Rightarrow> Inl e | Inr res' \<Rightarrow> ?step kv res')
             (rangeOrder E gv (elements ?b)) (Inr res) = Inr res' \<and> ?P res'"
    by (rule fold_invariant) (use step Suc.prems(2) in blast)+
  show ?case
  proof (cases "length gv \<noteq> 0 \<and> length cur = 0")
    case True
    then show ?thesis using Suc.prems by (subst formGroups.simps) simp
  next
    case False
    have ne: "groups d \<noteq> []" using lt by auto
    obtain res' where r:
      "fold (\<lambda>kv r. case r of Inl e \<Rightarrow> Inl e | Inr res' \<Rightarrow> ?step kv res')
             (rangeOrder E gv (elements ?b)) (Inr res) = Inr res'" "?P res'"
      using f by blast
    have "formGroups E d cur gv res = Inr res'"
      using False lt r(1) by (simp add: formGroups_loop)
    then show ?thesis using r(2) by blast
  qed
qed

lemma formGroups_top_keys:
  "\<exists>res. formGroups E d [] [] \<lparr>group = []\<rparr> = Inr res
         \<and> (\<forall>g\<in>set (group res). length (keys g) = length (groups d) \<and> 0 < length (keys g))"
  using formGroups_keys[of "[]" d "\<lparr>group = []\<rparr>" E "[]"] by simp

lemma formResult_dedup_error:
  "formResult_dedup E cs uidSet d = Inl e \<Longrightarrow> e = Crash"
  by (induction cs arbitrary: d) (auto split: if_splits prod.splits option.splits)

lemma formResult_not_sentinel:
  "snd (formResult E sg uidSet) \<noteq> Some ErrEmptyVal"
proof (cases "formResult_dedup E (Children sg) uidSet \<lparr>groups = []\<rparr>")
  case (Inl e)
  then show ?thesis using formResult_dedup_error[OF Inl] by (simp add: formResult_def)
next
  case (Inr dm)
  obtain res where res: "formGroups E dm [] [] \<lparr>group = []\<rparr> = Inr res"
    using formGroups_top_keys by blast
  obtain gs r where c: "formResult_children E (Children sg) (group res) = (gs, r)" by force
  have "r \<noteq> Some ErrEmptyVal"
    using formResult_children_not_sentinel[of E "Children sg" "group res"] c by simp
  then show ?thesis using Inr res c by (cases r) (auto simp: formResult_def)
qed

subsection \<open>A reducer without input\<close>

text \<open>
  C8: when no identifier of the group qualifies for the reducer of an aggregate child,
  \<^verbatim>\<open>aggregateChild\<close> hands back the empty-value sentinel and the group as it was (no
  pair is appended); the loop over the groups goes on to the next group, the loop over
  the children of \<^verbatim>\<open>formResult\<close> goes on to the next child, and \<^verbatim>\<open>formResult\<close> never
  returns the sentinel as its error.
\<close>

theorem aggregateChild_empty_reducer:
  assumes "\<not> DoCount (Params child)" and "SrcFunc child = Some f" and "isAggregatorFn E (Name f)"
      and "qualifying E child (uids grp) = []"
  shows "aggregateChild E grp child = (grp, Some ErrEmptyVal)
       \<and> aggregateChild_groups E child (grp # gs) =
           (grp # fst (aggregateChild_groups E child gs), snd (aggregateChild_groups E child gs))
       \<and> formResult_children E (child # cs) [grp] = formResult_children E cs [grp]
       \<and> snd (formResult E sg uidSet) \<noteq> Some ErrEmptyVal"
proof -
  have 1: "aggregateChild E grp child = (grp, Some ErrEmptyVal)"
    using assms
    by (simp add: aggregateChild_def aggregateGroup_def aggregateGroup_loop_qualifying ag_Value_def)
  have 2: "\<not> IgnoreResult (Params child) \<Longrightarrow>
           formResult_children E (child # cs) [grp] = formResult_children E cs [grp]"
    using 1 by simp
  show ?thesis using 1 formResult_not_sentinel[of E sg uidSet] by (simp split: prod.splits)
qed

theorem aggregateChild_empty_reducer_witness:
  "\<not> DoCount (Params maxChild) \<and> SrcFunc maxChild = Some \<lparr>Name = ''max''\<rparr>
   \<and> isAggregatorFn env0 (Name \<lparr>Name = ''max''\<rparr>)
   \<and> qualifying env0 maxChild (uids \<lparr>keys = [uidKey ''a'' 1], aggregates = [], uids = [1, 2, 3]\<rparr>) = []
   \<and> aggregateChild env0 \<lparr>keys = [uidKey ''a'' 1], aggregates = [], uids = [1, 2, 3]\<rparr> maxChild
     = (\<lparr>keys = [uidKey ''a'' 1], aggregates = [], uids = [1, 2, 3]\<rparr>, Some ErrEmptyVal)"
proof -
  have q: "qualifying env0 maxChild
             (uids \<lparr>keys = [uidKey ''a'' 1], aggregates = [], uids = [1, 2, 3]\<rparr>) = []"
    by (simp add: qualifying_def maxChild_def env0_def Values_def)
  have a: "isAggregatorFn env0 (Name \<lparr>Name = ''max''\<rparr>)" by (simp add: env0_def)
  have s: "SrcFunc maxChild = Some \<lparr>Name = ''max''\<rparr>" by (simp add: maxChild_def)
  have c: "\<not> DoCount (Params maxChild)" by (simp add: maxChild_def)
  show ?thesis
    using aggregateChild_empty_reducer [OF c s a q, of "[]" "[]" countChild "[]"] q a s c
    by simp
qed

subsection \<open>Binding variables\<close>

lemma aggregateChild_keys:
  "keys (fst (aggregateChild E g c)) = keys g"
  by (auto simp: aggregateChild_def Let_def split: option.splits sum.splits)

lemma aggregateChild_groups_keys:
  "map keys (fst (aggregateChild_groups E c gs)) = map keys gs"
proof (induction gs)
  case Nil
  then show ?case by simp
next
  case (Cons g gs)
  obtain g' r where a: "aggregateChild E g c = (g', r)" by force
  then have "keys g' = keys g" using aggregateChild_keys[of E g c] by simp
  then show ?case using Cons a by (auto split: prod.splits)
qed

lemma aggregateChild_error:
  "snd (aggregateChild E g c) = Some e \<Longrightarrow> e = ErrEmptyVal \<or> e = ErrCountNotUid"
  by (auto simp: aggregateChild_def aggregateGroup_def ag_Value_def Let_def
           split: option.splits sum.splits if_splits)

lemma aggregateChild_groups_error:
  "snd (aggregateChild_groups E c gs) = Some e \<Longrightarrow> e = ErrCountNotUid"
proof (induction gs)
  case Nil
  then show ?case by simp
next
  case (Cons g gs)
  obtain g' r where a: "aggregateChild E g c = (g', r)" by force
  have "r = None \<or> r = Some ErrEmptyVal \<or> r = Some ErrCountNotUid"
    using aggregateChild_error[of E g c] a by (cases r) auto
  then show ?case using Cons a by (auto split: prod.splits if_splits)
qed

lemma fillGroupedVars_bind_bad:
  "\<exists>g\<in>set gs. bad_keys (keys g) \<Longrightarrow> \<exists>e. fillGroupedVars_bind gs m = Inl e \<and> usage_error e"
proof (induction gs arbitrary: m)
  case Nil
  then show ?case by simp
next
  case (Cons g gs)
  show ?case
  proof (cases "bad_keys (keys g)")
    case True
    then show ?thesis
      by (auto simp: bad_keys_def usage_error_def split: iface.splits)
  next
    case False
    then have "\<exists>g\<in>set gs. bad_keys (keys g)" using Cons.prems by simp
    then have ih: "\<exists>e. fillGroupedVars_bind gs m' = Inl e \<and> usage_error e" for m'
      using Cons.IH by blast
    show ?thesis using ih by (auto simp: usage_error_def split: iface.splits)
  qed
qed

lemma fillGroupedVars_children_bad:
  assumes "\<exists>ks\<in>set (map keys gs). bad_keys ks"
      and "\<exists>c\<in>set cs. Var (Params c) \<noteq> '''' \<and> \<not> IgnoreResult (Params c)"
  shows "\<exists>e. fillGroupedVars_children E cs pth pn gs dv = (dv, Some e) \<and> usage_error e"
  using assms
proof (induction cs arbitrary: gs)
  case Nil
  then show ?case by simp
next
  case (Cons c cs)
  show ?case
  proof (cases "IgnoreResult (Params c)")
    case True
    then show ?thesis using Cons by auto
  next
    case False
    obtain gs' r where a: "aggregateChild_groups E c gs = (gs', r)" by force
    have k: "map keys gs' = map keys gs" using aggregateChild_groups_keys[of E c gs] a by simp
    show ?thesis
    proof (cases r)
      case (Some e)
      then have "e = ErrCountNotUid" using aggregateChild_groups_error[of E c gs e] a by simp
      then show ?thesis using False a Some by (simp add: usage_error_def)
    next
      case None
      have bad': "\<exists>ks\<in>set (map keys gs'). bad_keys ks" using Cons.prems(1) k by simp
      show ?thesis
      proof (cases "Var (Params c) = ''''")
        case True
        then have "\<exists>c\<in>set cs. Var (Params c) \<noteq> '''' \<and> \<not> IgnoreResult (Params c)"
          using Cons.prems(2) by auto
        then show ?thesis using Cons.IH[OF bad'] False a None True by simp
      next
        case nv: False
        obtain e where "fillGroupedVars_bind gs' Map.empty = Inl e" "usage_error e"
          using fillGroupedVars_bind_bad[of gs' Map.empty] bad' by auto
        then show ?thesis using False a None nv by simp
      qed
    qed
  qed
qed

text \<open>
  C2, amended: when the grouping loop of \<^verbatim>\<open>fillGroupedVars\<close> completes, some aggregation
  child (one that is not a grouping child, \<^verbatim>\<open>IgnoreResult\<close> false) declares a variable,
  and some group that \<^verbatim>\<open>formGroups\<close> produced has a number of keys other than one, or a
  sole key whose value is not an entity identifier (a \<^verbatim>\<open>uint64\<close>), the call returns a
  usage error, and the variable table is the one it was given: nothing is bound. (A
  produced group always has at least one key.)
\<close>

theorem fillGroupedVars_rejects_keys:
  assumes "fillGroupedVars_dedup E (Children sg) \<lparr>groups = []\<rparr> None = Inr (dedupMap, pathNode)"
      and "formGroups E dedupMap [] [] \<lparr>group = []\<rparr> = Inr res"
      and "g \<in> set (group res)"
      and "length (keys g) \<noteq> 1 \<or> (\<forall>u. Value (key (hd (keys g))) \<noteq> Uint64 u)"
      and "child \<in> set (Children sg)"
      and "Var (Params child) \<noteq> ''''" and "\<not> IgnoreResult (Params child)"
  shows "\<exists>e. fillGroupedVars E sg doneVars pth = (doneVars, Some e) \<and> usage_error e"
proof -
  have "0 < length (keys g)"
    using formGroups_top_keys[of E dedupMap] assms(2,3) by auto
  then have "bad_keys (keys g)" using assms(4) by (cases "keys g") (auto simp: bad_keys_def)
  then have b: "\<exists>ks\<in>set (map keys (group res)). bad_keys ks" using assms(3) by auto
  have c: "\<exists>c\<in>set (Children sg). Var (Params c) \<noteq> '''' \<and> \<not> IgnoreResult (Params c)"
    using assms(5-7) by blast
  have v: "\<exists>c\<in>set (Children sg). Var (Params c) \<noteq> ''''" using assms(5,6) by blast
  show ?thesis
    using fillGroupedVars_children_bad[OF b c, of E pth pathNode doneVars] assms(1,2) v
    by (simp add: fillGroupedVars_def)
qed

lemma dedup_name:
  "fillGroupedVars_dedup env0 [nameChild, countVarChild] \<lparr>groups = []\<rparr> None =
     Inr (\<lparr>groups = [\<lparr>elements =
              [(''x'', \<lparr>entities = [1], ekey = \<lparr>Tid = StringID, Value = Str ''x''\<rparr>\<rparr>)],
            uattr = ''name''\<rparr>]\<rparr>, None)"
  by (simp add: nameChild_def countVarChild_def valueNode_def Values_def addValue_def
        getGroup_def addValue_strKey_def addValue_entry_def groupAttr_def env0_def)

lemma groups_name:
  "formGroups env0 \<lparr>groups = [\<lparr>elements =
              [(''x'', \<lparr>entities = [1], ekey = \<lparr>Tid = StringID, Value = Str ''x''\<rparr>\<rparr>)],
            uattr = ''name''\<rparr>]\<rparr> [] [] \<lparr>group = []\<rparr> =
     Inr \<lparr>group = [\<lparr>keys = [strKey ''name'' ''x''], aggregates = [], uids = [1]\<rparr>]\<rparr>"
  by (simp add: formGroups.simps env0_def strKey_def)

theorem fillGroupedVars_rejects_keys_witness:
  "fillGroupedVars_dedup env0 (Children (node [nameChild, countVarChild])) \<lparr>groups = []\<rparr> None =
     Inr (\<lparr>groups = [\<lparr>elements =
              [(''x'', \<lparr>entities = [1], ekey = \<lparr>Tid = StringID, Value = Str ''x''\<rparr>\<rparr>)],
            uattr = ''name''\<rparr>]\<rparr>, None)
   \<and> countVarChild \<in> set (Children (node [nameChild, countVarChild]))
   \<and> Var (Params countVarChild) \<noteq> '''' \<and> \<not> IgnoreResult (Params countVarChild)
   \<and> (\<forall>u. Value (key (hd (keys \<lparr>keys = [strKey ''name'' ''x''], aggregates = [], uids = [1]\<rparr>)))
           \<noteq> Uint64 u)
   \<and> fillGroupedVars env0 (node [nameChild, countVarChild]) Map.empty [] =
       (Map.empty, Some ErrVarNotUid)"
proof -
  have c: "Children (node [nameChild, countVarChild]) = [nameChild, countVarChild]"
    by (simp add: node_def)
  have 1: "fillGroupedVars_dedup env0 (Children (node [nameChild, countVarChild]))
             \<lparr>groups = []\<rparr> None =
           Inr (\<lparr>groups = [\<lparr>elements =
              [(''x'', \<lparr>entities = [1], ekey = \<lparr>Tid = StringID, Value = Str ''x''\<rparr>\<rparr>)],
            uattr = ''name''\<rparr>]\<rparr>, None)"
    using dedup_name c by simp
  have 3: "\<lparr>keys = [strKey ''name'' ''x''], aggregates = [], uids = [1]\<rparr>
             \<in> set (group \<lparr>group = [\<lparr>keys = [strKey ''name'' ''x''], aggregates = [], uids = [1]\<rparr>]\<rparr>)"
    by simp
  have 4: "length (keys \<lparr>keys = [strKey ''name'' ''x''], aggregates = [], uids = [1]\<rparr>) \<noteq> 1
        \<or> (\<forall>u. Value (key (hd (keys \<lparr>keys = [strKey ''name'' ''x''], aggregates = [], uids = [1]\<rparr>)))
               \<noteq> Uint64 u)"
    by (simp add: strKey_def)
  have 5: "countVarChild \<in> set (Children (node [nameChild, countVarChild]))" using c by simp
  have 6: "Var (Params countVarChild) \<noteq> ''''" by (simp add: countVarChild_def)
  have 7: "\<not> IgnoreResult (Params countVarChild)" by (simp add: countVarChild_def)
  have r: "fillGroupedVars env0 (node [nameChild, countVarChild]) Map.empty [] =
       (Map.empty, Some ErrVarNotUid)"
    using c dedup_name groups_name
    by (simp add: fillGroupedVars_def nameChild_def countVarChild_def aggregateChild_def strKey_def)
  show ?thesis
    using fillGroupedVars_rejects_keys [OF 1 groups_name 3 4 5 6 7, of Map.empty "[]"] 1 4 5 6 7 r
    by (simp add: strKey_def)
qed

lemma dedup_keyChildVar:
  "fillGroupedVars_dedup env0 [keyChildVar] \<lparr>groups = []\<rparr> None =
     Inr (\<lparr>groups = [\<lparr>elements =
              [(''x'', \<lparr>entities = [1], ekey = \<lparr>Tid = StringID, Value = Str ''x''\<rparr>\<rparr>)],
            uattr = ''name''\<rparr>]\<rparr>, None)"
  by (simp add: keyChildVar_def valueNode_def Values_def addValue_def
        getGroup_def addValue_strKey_def addValue_entry_def groupAttr_def env0_def)

text \<open>
  C2, as the specification words it, fails for a child that declares a variable and is a
  grouping child: the loop that binds skips the children with \<^verbatim>\<open>IgnoreResult\<close>. Here the
  only child declares the variable \<^verbatim>\<open>v\<close> and groups by a string attribute; the one
  group's sole key is a string, and the call returns nil.
\<close>

theorem fillGroupedVars_key_child_counterexample:
  "keyChildVar \<in> set (Children (node [keyChildVar])) \<and> Var (Params keyChildVar) \<noteq> ''''
   \<and> fillGroupedVars_dedup env0 (Children (node [keyChildVar])) \<lparr>groups = []\<rparr> None =
       Inr (\<lparr>groups = [\<lparr>elements =
              [(''x'', \<lparr>entities = [1], ekey = \<lparr>Tid = StringID, Value = Str ''x''\<rparr>\<rparr>)],
            uattr = ''name''\<rparr>]\<rparr>, None)
   \<and> formGroups env0 \<lparr>groups = [\<lparr>elements =
              [(''x'', \<lparr>entities = [1], ekey = \<lparr>Tid = StringID, Value = Str ''x''\<rparr>\<rparr>)],
            uattr = ''name''\<rparr>]\<rparr> [] [] \<lparr>group = []\<rparr> =
       Inr \<lparr>group = [\<lparr>keys = [\<lparr>key = \<lparr>Tid = StringID, Value = Str ''x''\<rparr>, attr = ''name''\<rparr>],
                       aggregates = [], uids = [1]\<rparr>]\<rparr>
   \<and> fillGroupedVars env0 (node [keyChildVar]) Map.empty [] = (Map.empty, None)"
proof -
  have c: "Children (node [keyChildVar]) = [keyChildVar]" by (simp add: node_def)
  have r: "fillGroupedVars env0 (node [keyChildVar]) Map.empty [] = (Map.empty, None)"
    using c dedup_keyChildVar groups_name
    by (simp add: fillGroupedVars_def keyChildVar_def)
  show ?thesis using c r dedup_keyChildVar groups_name
    by (simp add: strKey_def keyChildVar_def)
qed

lemma binding_Cons:
  "binding (g # gs) u =
     (case binding gs u of
        Some v \<Rightarrow> Some v
      | None \<Rightarrow> if group_uid g = Some u \<and> aggregates g \<noteq> []
                 then Some (key (last (aggregates g))) else None)"
  by (auto simp: binding_def split: list.splits)

lemma fillGroupedVars_bind_binding:
  "fillGroupedVars_bind gs m = Inr m' \<Longrightarrow>
     (\<forall>g\<in>set gs. keys g = [] \<or> group_uid g \<noteq> None)
     \<and> (\<forall>x. m' x = (case binding gs x of None \<Rightarrow> m x | Some v \<Rightarrow> Some v))"
proof (induction gs arbitrary: m)
  case Nil
  then show ?case by (simp add: binding_def)
next
  case (Cons g gs)
  show ?case
  proof (cases "keys g")
    case Nil
    then have "fillGroupedVars_bind gs m = Inr m'" using Cons.prems by simp
    from Cons.IH[OF this] have ih: "\<forall>g\<in>set gs. keys g = [] \<or> group_uid g \<noteq> None"
      "\<And>x. m' x = (case binding gs x of None \<Rightarrow> m x | Some v \<Rightarrow> Some v)" by auto
    have gu: "group_uid g = None" using Nil by (simp add: group_uid_def)
    show ?thesis using ih(1) Nil gu by (simp add: binding_Cons ih(2) split: option.splits)
  next
    case (Cons kp ks)
    then have ks: "ks = []" using Cons.prems by (auto split: if_splits)
    then obtain u where u: "Value (key kp) = Uint64 u"
      using Cons.prems Cons by (auto split: if_splits iface.splits)
    have gu: "group_uid g = Some u" using Cons ks u by (simp add: group_uid_def)
    show ?thesis
    proof (cases "aggregates g = []")
      case True
      then have "fillGroupedVars_bind gs m = Inr m'" using Cons.prems Cons ks u by simp
      from Cons.IH[OF this] have ih: "\<forall>g\<in>set gs. keys g = [] \<or> group_uid g \<noteq> None"
        "\<And>x. m' x = (case binding gs x of None \<Rightarrow> m x | Some v \<Rightarrow> Some v)" by auto
      show ?thesis using ih(1) gu True by (simp add: binding_Cons ih(2) split: option.splits)
    next
      case False
      let ?m1 = "m(u \<mapsto> key (aggregates g ! (length (aggregates g) - 1)))"
      have "fillGroupedVars_bind gs ?m1 = Inr m'"
        using Cons.prems Cons ks u False by simp
      from Cons.IH[OF this] have ih: "\<forall>g\<in>set gs. keys g = [] \<or> group_uid g \<noteq> None"
        "\<And>x. m' x = (case binding gs x of None \<Rightarrow> ?m1 x | Some v \<Rightarrow> Some v)" by auto
      have l: "key (aggregates g ! (length (aggregates g) - 1)) = key (last (aggregates g))"
        using False by (simp add: last_conv_nth)
      show ?thesis using ih(1) gu False l
        by (simp add: binding_Cons ih(2) split: option.splits)
    qed
  qed
qed

lemma binding_unique:
  assumes "g \<in> set gs" and "group_uid g = Some u"
      and "\<forall>g'\<in>set gs. group_uid g' = Some u \<longrightarrow> g' = g"
  shows "binding gs u = (if aggregates g = [] then None else Some (key (last (aggregates g))))"
proof -
  let ?hs = "filter (\<lambda>g. group_uid g = Some u \<and> aggregates g \<noteq> []) gs"
  have all: "\<forall>h\<in>set ?hs. h = g" using assms(3) by auto
  show ?thesis
  proof (cases "aggregates g = []")
    case True
    then have "?hs = []" using all by (auto simp: filter_empty_conv)
    then show ?thesis using True by (simp add: binding_def)
  next
    case False
    then have "g \<in> set ?hs" using assms(1,2) by simp
    then obtain h hs where hs: "?hs = h # hs" by (cases ?hs) auto
    then have "last (h # hs) \<in> set ?hs" by (metis last_in_set list.distinct(1))
    then have "last (h # hs) = g" using all by blast
    then show ?thesis using False hs by (simp add: binding_def)
  qed
qed

lemma formResult_children_keys:
  "map keys (fst (formResult_children E cs gs)) = map keys gs"
proof (induction cs arbitrary: gs)
  case Nil
  then show ?case by simp
next
  case (Cons c cs)
  obtain gs' r where a: "aggregateChild_groups E c gs = (gs', r)" by force
  have k: "map keys gs' = map keys gs" using aggregateChild_groups_keys[of E c gs] a by simp
  show ?case using Cons[of gs'] Cons[of gs] a k by (cases r) auto
qed

lemma dedup_friend_max:
  "fillGroupedVars_dedup env0 [friendChild, maxVarChild] \<lparr>groups = []\<rparr> None =
     Inr (\<lparr>groups = [\<lparr>elements =
              [(''10'', \<lparr>entities = [1, 2], ekey = \<lparr>Tid = UidID, Value = Uint64 10\<rparr>\<rparr>),
               (''11'', \<lparr>entities = [1], ekey = \<lparr>Tid = UidID, Value = Uint64 11\<rparr>\<rparr>)],
            uattr = ''friend''\<rparr>]\<rparr>, Some friendChild)"
  by (simp add: friendChild_def maxVarChild_def uidNode_def adjacent_def addValue_def
        getGroup_def addValue_strKey_def addValue_entry_def FormatUint_def digits.simps groupAttr_def)

lemma groups_friend:
  "formGroups env0 \<lparr>groups = [\<lparr>elements =
              [(''10'', \<lparr>entities = [1, 2], ekey = \<lparr>Tid = UidID, Value = Uint64 10\<rparr>\<rparr>),
               (''11'', \<lparr>entities = [1], ekey = \<lparr>Tid = UidID, Value = Uint64 11\<rparr>\<rparr>)],
            uattr = ''friend''\<rparr>]\<rparr> [] [] \<lparr>group = []\<rparr> =
     Inr \<lparr>group = [\<lparr>keys = [uidKey ''friend'' 10], aggregates = [], uids = [1, 2]\<rparr>,
                   \<lparr>keys = [uidKey ''friend'' 11], aggregates = [], uids = [1]\<rparr>]\<rparr>"
  by (simp add: formGroups.simps env0_def uidKey_def)

lemma aggregate_max:
  "aggregateChild_groups env0 maxVarChild
     [\<lparr>keys = [uidKey ''friend'' 10], aggregates = [], uids = [1, 2]\<rparr>,
      \<lparr>keys = [uidKey ''friend'' 11], aggregates = [], uids = [1]\<rparr>] =
   ([\<lparr>keys = [uidKey ''friend'' 10],
      aggregates = [\<lparr>key = \<lparr>Tid = StringID, Value = Str ''30''\<rparr>, attr = ''max(age)''\<rparr>],
      uids = [1, 2]\<rparr>,
     \<lparr>keys = [uidKey ''friend'' 11], aggregates = [], uids = [1]\<rparr>], None)"
  by (simp add: aggregateChild_def aggregateGroup_def ag_Value_def Apply_def maxVarChild_def
        env0_def Values_def)

lemma last_declarer_Some:
  "last_declarer x cs = Some j \<Longrightarrow> j < length cs \<and> declares x (cs ! j)"
  by (induction cs arbitrary: j) (auto split: option.splits if_splits)

lemma aggregateChild_count_error:
  "snd (aggregateChild E g c) = Some ErrCountNotUid \<Longrightarrow> DoCount (Params c) \<and> Attr c \<noteq> ''uid''"
  by (auto simp: aggregateChild_def aggregateGroup_def ag_Value_def Let_def
           split: option.splits sum.splits if_splits)

lemma aggregateChild_groups_succeeds:
  assumes "DoCount (Params c) \<longrightarrow> Attr c = ''uid''"
  shows "snd (aggregateChild_groups E c gs) = None"
proof (induction gs)
  case Nil
  then show ?case by simp
next
  case (Cons g gs)
  obtain g' r where a: "aggregateChild E g c = (g', r)" by force
  have "r \<noteq> Some ErrCountNotUid" using aggregateChild_count_error[of E g c] a assms by auto
  moreover have "r = None \<or> r = Some ErrEmptyVal \<or> r = Some ErrCountNotUid"
    using aggregateChild_error[of E g c] a by (cases r) auto
  ultimately show ?case using Cons a by (auto split: prod.splits)
qed

lemma group_uid_keys:
  "keys g' = keys g \<Longrightarrow> group_uid g' = group_uid g"
  by (simp add: group_uid_def)

lemma group_uid_preserved:
  assumes "map keys gs' = map keys gs" and "\<forall>g\<in>set gs. group_uid g \<noteq> None"
  shows "\<forall>g\<in>set gs'. group_uid g \<noteq> None"
proof
  fix g' assume "g' \<in> set gs'"
  then obtain i where i: "i < length gs'" "gs' ! i = g'" by (auto simp: in_set_conv_nth)
  have l: "length gs' = length gs" using assms(1) by (metis length_map)
  have "keys (gs' ! i) = keys (gs ! i)" using assms(1) i(1) l by (metis nth_map)
  then have "group_uid g' = group_uid (gs ! i)" using i(2) group_uid_keys by blast
  then show "group_uid g' \<noteq> None" using assms(2) i(1) l by simp
qed

lemma fillGroupedVars_bind_succeeds:
  "\<forall>g\<in>set gs. group_uid g \<noteq> None \<Longrightarrow> \<exists>m'. fillGroupedVars_bind gs m = Inr m'"
proof (induction gs arbitrary: m)
  case Nil
  then show ?case by simp
next
  case (Cons g gs)
  then obtain u where "group_uid g = Some u" by auto
  then obtain kp where kp: "keys g = [kp]" "Value (key kp) = Uint64 u"
    by (auto simp: group_uid_def split: list.splits iface.splits)
  have ih: "\<exists>m'. fillGroupedVars_bind gs m0 = Inr m'" for m0 using Cons by simp
  show ?case using kp ih by simp
qed

lemma fillGroupedVars_bind_empty:
  assumes "\<forall>g\<in>set gs. group_uid g \<noteq> None"
  shows "fillGroupedVars_bind gs Map.empty = Inr (binding gs)"
proof -
  obtain m where m: "fillGroupedVars_bind gs Map.empty = Inr m"
    using fillGroupedVars_bind_succeeds[OF assms] by blast
  have "m x = binding gs x" for x
    using fillGroupedVars_bind_binding[OF m] by (auto split: option.splits)
  then have "m = binding gs" by (simp add: fun_eq_iff)
  then show ?thesis using m by simp
qed

lemma fillGroupedVars_children_table:
  assumes "\<forall>g\<in>set gs. group_uid g \<noteq> None"
      and "\<forall>c\<in>set cs. \<not> IgnoreResult (Params c) \<and> DoCount (Params c) \<longrightarrow> Attr c = ''uid''"
  shows "snd (fillGroupedVars_children E cs pth pn gs dv) = None
       \<and> (\<forall>x. fst (fillGroupedVars_children E cs pth pn gs dv) x =
            (case last_declarer x cs of
               None \<Rightarrow> dv x
             | Some j \<Rightarrow> Some \<lparr>Vals = binding (fst (formResult_children E (take (Suc j) cs) gs)),
                                  path = pth @ [pn]\<rparr>))"
  using assms
proof (induction cs arbitrary: gs dv)
  case Nil
  then show ?case by simp
next
  case (Cons c cs)
  have cs: "\<forall>c\<in>set cs. \<not> IgnoreResult (Params c) \<and> DoCount (Params c) \<longrightarrow> Attr c = ''uid''"
    using Cons.prems(2) by simp
  show ?case
  proof (cases "IgnoreResult (Params c)")
    case True
    then have nd: "\<not> declares x c" for x by (simp add: declares_def)
    show ?thesis using Cons.IH[OF Cons.prems(1) cs, of dv] True nd
      by (auto split: option.splits)
  next
    case False
    obtain gs' r where a: "aggregateChild_groups E c gs = (gs', r)" by force
    have "DoCount (Params c) \<longrightarrow> Attr c = ''uid''" using Cons.prems(2) False by simp
    then have r: "r = None" using aggregateChild_groups_succeeds[of c E gs] a by simp
    have k: "map keys gs' = map keys gs" using aggregateChild_groups_keys[of E c gs] a by simp
    have u': "\<forall>g\<in>set gs'. group_uid g \<noteq> None"
      by (rule group_uid_preserved[OF k Cons.prems(1)])
    show ?thesis
    proof (cases "Var (Params c) = ''''")
      case True
      then have nd: "\<not> declares x c" for x by (simp add: declares_def)
      show ?thesis using Cons.IH[OF u' cs, of dv] False a r True nd
        by (auto split: option.splits)
    next
      case nv: False
      have b: "fillGroupedVars_bind gs' Map.empty = Inr (binding gs')"
        by (rule fillGroupedVars_bind_empty[OF u'])
      let ?dv1 = "dv(Var (Params c) \<mapsto> \<lparr>Vals = binding gs', path = pth @ [pn]\<rparr>)"
      have d: "declares x c \<longleftrightarrow> x = Var (Params c)" for x
        using False nv by (auto simp: declares_def)
      have step: "fillGroupedVars_children E (c # cs) pth pn gs dv =
                  fillGroupedVars_children E cs pth pn gs' ?dv1"
        using False a r nv b by simp
      have f0: "formResult_children E [c] gs = (gs', None)"
        using False a r by simp
      have fS: "formResult_children E (c # ys) gs = formResult_children E ys gs'" for ys
        using False a r by simp
      note ih = Cons.IH[OF u' cs, of ?dv1]
      have s: "snd (fillGroupedVars_children E (c # cs) pth pn gs dv) = None"
        unfolding step using ih by blast
      have t: "fst (fillGroupedVars_children E (c # cs) pth pn gs dv) x =
            (case last_declarer x (c # cs) of
               None \<Rightarrow> dv x
             | Some j \<Rightarrow> Some \<lparr>Vals = binding (fst (formResult_children E (take (Suc j) (c # cs)) gs)),
                                  path = pth @ [pn]\<rparr>)" for x
      proof (cases "last_declarer x cs")
        case None
        have e: "fst (fillGroupedVars_children E cs pth pn gs' ?dv1) x = ?dv1 x"
          using ih[THEN conjunct2, rule_format, of x] by (simp only: None option.case)
        have L: "last_declarer x (c # cs) = (if x = Var (Params c) then Some 0 else None)"
          using None d[of x] by simp
        have G: "fst (formResult_children E (take (Suc 0) (c # cs)) gs) = gs'"
          using f0 by simp
        show ?thesis unfolding step e L using G by simp
      next
        case (Some j)
        have e: "fst (fillGroupedVars_children E cs pth pn gs' ?dv1) x =
            Some \<lparr>Vals = binding (fst (formResult_children E (take (Suc j) cs) gs')),
                   path = pth @ [pn]\<rparr>"
          using ih[THEN conjunct2, rule_format, of x] by (simp only: Some option.case)
        have L: "last_declarer x (c # cs) = Some (Suc j)" using Some by simp
        have G: "formResult_children E (take (Suc (Suc j)) (c # cs)) gs =
                 formResult_children E (take (Suc j) cs) gs'"
          using fS[of "take (Suc j) cs"] by simp
        show ?thesis unfolding step e L using G by simp
      qed
      show ?thesis using s t by blast
    qed
  qed
qed

lemma last_declarer_None:
  "last_declarer x cs = None \<Longrightarrow> \<forall>c\<in>set cs. \<not> declares x c"
  by (induction cs) (auto split: option.splits if_splits)

lemma last_declarer_greatest:
  "last_declarer x cs = Some j \<Longrightarrow>
     j < length cs \<and> declares x (cs ! j) \<and> (\<forall>i. j < i \<and> i < length cs \<longrightarrow> \<not> declares x (cs ! i))"
proof (induction cs arbitrary: j)
  case Nil
  then show ?case by simp
next
  case (Cons c cs)
  show ?case
  proof (cases "last_declarer x cs")
    case None
    then have j: "j = 0" "declares x c" using Cons.prems by (auto split: if_splits)
    have "\<not> declares x (cs ! i)" if "i < length cs" for i
      using last_declarer_None[OF None] that by simp
    then show ?thesis using j by (auto simp: nth_Cons split: nat.splits)
  next
    case (Some k)
    then have j: "j = Suc k" using Cons.prems by simp
    show ?thesis using Cons.IH[OF Some] j by (auto simp: nth_Cons split: nat.splits)
  qed
qed

text \<open>
  C7, amended: when the grouping loop of \<^verbatim>\<open>fillGroupedVars\<close> completes, every produced
  group has a sole key that is an entity identifier, and no aggregation child counts over
  a relation other than \<^verbatim>\<open>uid\<close>, the call returns nil, also when groups have no
  aggregate, and the table it leaves is this. Under a name that no aggregation child
  declares (a grouping child that declares a variable publishes nothing) the table is as
  it was. Under any other name it holds the path extended by \<^verbatim>\<open>pathNode\<close> and the
  mapping published by the last aggregation child that declares the name (a later one
  overwrites an earlier one), built from the groups as the children up to and including
  that child have aggregated them: it sends each group's sole key to the last element the
  group's aggregate list has at that moment, and a group whose aggregate list is empty
  then is left out of the mapping. Aggregates that later children append do not change a
  mapping already published.
\<close>

theorem fillGroupedVars_binding:
  assumes "fillGroupedVars_dedup E (Children sg) \<lparr>groups = []\<rparr> None = Inr (dedupMap, pathNode)"
      and "formGroups E dedupMap [] [] \<lparr>group = []\<rparr> = Inr res"
      and "\<forall>g\<in>set (group res). group_uid g \<noteq> None"
      and "\<forall>c\<in>set (Children sg). \<not> IgnoreResult (Params c) \<and> DoCount (Params c)
             \<longrightarrow> Attr c = ''uid''"
  shows "snd (fillGroupedVars E sg doneVars pth) = None
       \<and> (\<forall>x. fst (fillGroupedVars E sg doneVars pth) x =
            (case last_declarer x (Children sg) of
               None \<Rightarrow> doneVars x
             | Some j \<Rightarrow>
                 Some \<lparr>Vals = binding
                          (fst (formResult_children E (take (Suc j) (Children sg)) (group res))),
                       path = pth @ [pathNode]\<rparr>))
       \<and> (\<forall>j. \<forall>g\<in>set (fst (formResult_children E (take (Suc j) (Children sg)) (group res))).
             \<exists>kp u. keys g = [kp] \<and> Value (key kp) = Uint64 u
               \<and> ((\<forall>g'\<in>set (fst (formResult_children E (take (Suc j) (Children sg)) (group res))).
                      group_uid g' = Some u \<longrightarrow> g' = g) \<longrightarrow>
                    binding (fst (formResult_children E (take (Suc j) (Children sg)) (group res))) u
                      = (if aggregates g = [] then None
                         else Some (key (last (aggregates g))))))"
proof -
  have tab: "snd (fillGroupedVars E sg doneVars pth) = None
       \<and> (\<forall>x. fst (fillGroupedVars E sg doneVars pth) x =
            (case last_declarer x (Children sg) of
               None \<Rightarrow> doneVars x
             | Some j \<Rightarrow>
                 Some \<lparr>Vals = binding
                          (fst (formResult_children E (take (Suc j) (Children sg)) (group res))),
                       path = pth @ [pathNode]\<rparr>))"
  proof (cases "\<exists>child\<in>set (Children sg). Var (Params child) \<noteq> ''''")
    case True
    then have "fillGroupedVars E sg doneVars pth =
                 fillGroupedVars_children E (Children sg) pth pathNode (group res) doneVars"
      using assms(1,2) by (simp add: fillGroupedVars_def)
    then show ?thesis
      using fillGroupedVars_children_table[OF assms(3,4), of E pth pathNode doneVars] by simp
  next
    case False
    have "last_declarer x (Children sg) = None" for x
    proof (cases "last_declarer x (Children sg)")
      case None
      then show ?thesis .
    next
      case (Some j)
      then have "j < length (Children sg)" "declares x (Children sg ! j)"
        using last_declarer_greatest[OF Some] by simp_all
      then show ?thesis using False by (auto simp: declares_def)
    qed
    then show ?thesis using False by (simp add: fillGroupedVars_def)
  qed
  have per: "\<exists>kp u. keys g = [kp] \<and> Value (key kp) = Uint64 u
               \<and> ((\<forall>g'\<in>set (fst (formResult_children E (take (Suc j) (Children sg)) (group res))).
                      group_uid g' = Some u \<longrightarrow> g' = g) \<longrightarrow>
                    binding (fst (formResult_children E (take (Suc j) (Children sg)) (group res))) u
                      = (if aggregates g = [] then None
                         else Some (key (last (aggregates g)))))"
    if g: "g \<in> set (fst (formResult_children E (take (Suc j) (Children sg)) (group res)))"
    for j g
  proof -
    let ?gs = "fst (formResult_children E (take (Suc j) (Children sg)) (group res))"
    have "map keys ?gs = map keys (group res)" by (rule formResult_children_keys)
    then have "\<forall>g\<in>set ?gs. group_uid g \<noteq> None"
      using group_uid_preserved assms(3) by blast
    then obtain u where u: "group_uid g = Some u" using g by auto
    then obtain kp where kp: "keys g = [kp]" "Value (key kp) = Uint64 u"
      by (auto simp: group_uid_def split: list.splits iface.splits)
    show ?thesis using kp binding_unique[OF g u] by blast
  qed
  show ?thesis using tab per by blast
qed

lemma dedup_friend_count_max:
  "fillGroupedVars_dedup env0 [friendChild, countVarChild, maxVarChild] \<lparr>groups = []\<rparr> None =
     Inr (\<lparr>groups = [\<lparr>elements =
              [(''10'', \<lparr>entities = [1, 2], ekey = \<lparr>Tid = UidID, Value = Uint64 10\<rparr>\<rparr>),
               (''11'', \<lparr>entities = [1], ekey = \<lparr>Tid = UidID, Value = Uint64 11\<rparr>\<rparr>)],
            uattr = ''friend''\<rparr>]\<rparr>, Some friendChild)"
  by (simp add: friendChild_def countVarChild_def maxVarChild_def uidNode_def adjacent_def
        addValue_def getGroup_def addValue_strKey_def addValue_entry_def FormatUint_def
        digits.simps groupAttr_def)

lemma aggregate_count:
  "aggregateChild_groups env0 countVarChild
     [\<lparr>keys = [uidKey ''friend'' 10], aggregates = [], uids = [1, 2]\<rparr>,
      \<lparr>keys = [uidKey ''friend'' 11], aggregates = [], uids = [1]\<rparr>] =
   ([\<lparr>keys = [uidKey ''friend'' 10],
      aggregates = [\<lparr>key = \<lparr>Tid = IntID, Value = Int64 2\<rparr>, attr = ''count''\<rparr>],
      uids = [1, 2]\<rparr>,
     \<lparr>keys = [uidKey ''friend'' 11],
      aggregates = [\<lparr>key = \<lparr>Tid = IntID, Value = Int64 1\<rparr>, attr = ''count''\<rparr>],
      uids = [1]\<rparr>], None)"
  by (simp add: aggregateChild_def countVarChild_def)

lemma aggregate_count_max:
  "aggregateChild_groups env0 maxVarChild
     [\<lparr>keys = [uidKey ''friend'' 10],
      aggregates = [\<lparr>key = \<lparr>Tid = IntID, Value = Int64 2\<rparr>, attr = ''count''\<rparr>],
      uids = [1, 2]\<rparr>,
     \<lparr>keys = [uidKey ''friend'' 11],
      aggregates = [\<lparr>key = \<lparr>Tid = IntID, Value = Int64 1\<rparr>, attr = ''count''\<rparr>],
      uids = [1]\<rparr>] =
   ([\<lparr>keys = [uidKey ''friend'' 10],
      aggregates = [\<lparr>key = \<lparr>Tid = IntID, Value = Int64 2\<rparr>, attr = ''count''\<rparr>,
                    \<lparr>key = \<lparr>Tid = StringID, Value = Str ''30''\<rparr>, attr = ''max(age)''\<rparr>],
      uids = [1, 2]\<rparr>,
     \<lparr>keys = [uidKey ''friend'' 11],
      aggregates = [\<lparr>key = \<lparr>Tid = IntID, Value = Int64 1\<rparr>, attr = ''count''\<rparr>],
      uids = [1]\<rparr>], None)"
  by (simp add: aggregateChild_def aggregateGroup_def ag_Value_def Apply_def maxVarChild_def
        env0_def Values_def)

text \<open>
  C7, as the specification words it, fails: the mapping of a variable is built when its
  child is reached, from the aggregate lists as they are then. With a grouping child, a
  count child that declares \<^verbatim>\<open>c\<close> and a later aggregate child, the call returns nil and
  \<^verbatim>\<open>c\<close> sends the identifier 10 to the count 2, while the aggregate list of that group
  ends with the later child's value.
\<close>

theorem fillGroupedVars_later_aggregate_counterexample:
  "snd (fillGroupedVars env0 sgC Map.empty []) = None
   \<and> fst (fillGroupedVars env0 sgC Map.empty []) ''c'' =
       Some \<lparr>Vals = [10 \<mapsto> \<lparr>Tid = IntID, Value = Int64 2\<rparr>, 11 \<mapsto> \<lparr>Tid = IntID, Value = Int64 1\<rparr>],
             path = [Some friendChild]\<rparr>
   \<and> fst (formResult_children env0 (Children sgC)
         [\<lparr>keys = [uidKey ''friend'' 10], aggregates = [], uids = [1, 2]\<rparr>,
          \<lparr>keys = [uidKey ''friend'' 11], aggregates = [], uids = [1]\<rparr>]) =
       [\<lparr>keys = [uidKey ''friend'' 10],
         aggregates = [\<lparr>key = \<lparr>Tid = IntID, Value = Int64 2\<rparr>, attr = ''count''\<rparr>,
                       \<lparr>key = \<lparr>Tid = StringID, Value = Str ''30''\<rparr>, attr = ''max(age)''\<rparr>],
         uids = [1, 2]\<rparr>,
        \<lparr>keys = [uidKey ''friend'' 11],
         aggregates = [\<lparr>key = \<lparr>Tid = IntID, Value = Int64 1\<rparr>, attr = ''count''\<rparr>],
         uids = [1]\<rparr>]
   \<and> [10 \<mapsto> \<lparr>Tid = IntID, Value = Int64 2\<rparr>, 11 \<mapsto> \<lparr>Tid = IntID, Value = Int64 1\<rparr>] (10 :: uid)
       \<noteq> Some (key (last [\<lparr>key = \<lparr>Tid = IntID, Value = Int64 2\<rparr>, attr = ''count''\<rparr>,
                             \<lparr>key = \<lparr>Tid = StringID, Value = Str ''30''\<rparr>, attr = ''max(age)''\<rparr>]))"
proof -
  have c: "Children sgC = [friendChild, countVarChild, maxVarChild]"
    by (simp add: sgC_def node_def)
  have v: "Var (Params maxVarChild) = ''m''" "\<not> IgnoreResult (Params maxVarChild)"
    "IgnoreResult (Params friendChild)" "Var (Params friendChild) = ''''"
    "Var (Params countVarChild) = ''c''" "\<not> IgnoreResult (Params countVarChild)"
    by (simp_all add: maxVarChild_def friendChild_def countVarChild_def)
  have f: "fillGroupedVars env0 sgC Map.empty [] =
     (Map.empty(''c'' \<mapsto> \<lparr>Vals = [10 \<mapsto> \<lparr>Tid = IntID, Value = Int64 2\<rparr>,
                                     11 \<mapsto> \<lparr>Tid = IntID, Value = Int64 1\<rparr>],
                             path = [Some friendChild]\<rparr>,
                ''m'' \<mapsto> \<lparr>Vals = [10 \<mapsto> \<lparr>Tid = StringID, Value = Str ''30''\<rparr>,
                                     11 \<mapsto> \<lparr>Tid = IntID, Value = Int64 1\<rparr>],
                             path = [Some friendChild]\<rparr>), None)"
    using c v dedup_friend_count_max groups_friend aggregate_count aggregate_count_max
    by (simp add: fillGroupedVars_def uidKey_def)
  have g: "fst (formResult_children env0 (Children sgC)
         [\<lparr>keys = [uidKey ''friend'' 10], aggregates = [], uids = [1, 2]\<rparr>,
          \<lparr>keys = [uidKey ''friend'' 11], aggregates = [], uids = [1]\<rparr>]) =
       [\<lparr>keys = [uidKey ''friend'' 10],
         aggregates = [\<lparr>key = \<lparr>Tid = IntID, Value = Int64 2\<rparr>, attr = ''count''\<rparr>,
                       \<lparr>key = \<lparr>Tid = StringID, Value = Str ''30''\<rparr>, attr = ''max(age)''\<rparr>],
         uids = [1, 2]\<rparr>,
        \<lparr>keys = [uidKey ''friend'' 11],
         aggregates = [\<lparr>key = \<lparr>Tid = IntID, Value = Int64 1\<rparr>, attr = ''count''\<rparr>],
         uids = [1]\<rparr>]"
    using c v aggregate_count aggregate_count_max by simp
  show ?thesis using f g by simp
qed

theorem fillGroupedVars_binding_witness:
  "snd (fillGroupedVars env0 sgM Map.empty []) = None
   \<and> last_declarer ''m'' (Children sgM) = Some 1
   \<and> fst (fillGroupedVars env0 sgM Map.empty []) ''m'' =
       Some \<lparr>Vals = binding
                [\<lparr>keys = [uidKey ''friend'' 10],
                  aggregates = [\<lparr>key = \<lparr>Tid = StringID, Value = Str ''30''\<rparr>, attr = ''max(age)''\<rparr>],
                  uids = [1, 2]\<rparr>,
                 \<lparr>keys = [uidKey ''friend'' 11], aggregates = [], uids = [1]\<rparr>],
             path = [Some friendChild]\<rparr>
   \<and> binding
        [\<lparr>keys = [uidKey ''friend'' 10],
          aggregates = [\<lparr>key = \<lparr>Tid = StringID, Value = Str ''30''\<rparr>, attr = ''max(age)''\<rparr>],
          uids = [1, 2]\<rparr>,
         \<lparr>keys = [uidKey ''friend'' 11], aggregates = [], uids = [1]\<rparr>] 10
       = Some \<lparr>Tid = StringID, Value = Str ''30''\<rparr>
   \<and> binding
        [\<lparr>keys = [uidKey ''friend'' 10],
          aggregates = [\<lparr>key = \<lparr>Tid = StringID, Value = Str ''30''\<rparr>, attr = ''max(age)''\<rparr>],
          uids = [1, 2]\<rparr>,
         \<lparr>keys = [uidKey ''friend'' 11], aggregates = [], uids = [1]\<rparr>] 11
       = None"
proof -
  have c: "Children sgM = [friendChild, maxVarChild]" by (simp add: sgM_def node_def)
  have v: "Var (Params maxVarChild) = ''m''" "\<not> IgnoreResult (Params maxVarChild)"
    "IgnoreResult (Params friendChild)" "Var (Params friendChild) = ''''"
    "\<not> DoCount (Params maxVarChild)"
    by (simp_all add: maxVarChild_def friendChild_def)
  have 1: "fillGroupedVars_dedup env0 (Children sgM) \<lparr>groups = []\<rparr> None =
     Inr (\<lparr>groups = [\<lparr>elements =
              [(''10'', \<lparr>entities = [1, 2], ekey = \<lparr>Tid = UidID, Value = Uint64 10\<rparr>\<rparr>),
               (''11'', \<lparr>entities = [1], ekey = \<lparr>Tid = UidID, Value = Uint64 11\<rparr>\<rparr>)],
            uattr = ''friend''\<rparr>]\<rparr>, Some friendChild)"
    using c dedup_friend_max by simp
  have 3: "\<forall>g\<in>set (group \<lparr>group =
              [\<lparr>keys = [uidKey ''friend'' 10], aggregates = [], uids = [1, 2]\<rparr>,
               \<lparr>keys = [uidKey ''friend'' 11], aggregates = [], uids = [1]\<rparr>]\<rparr>).
            group_uid g \<noteq> None"
    by (simp add: group_uid_def uidKey_def)
  have 4: "\<forall>c\<in>set (Children sgM). \<not> IgnoreResult (Params c) \<and> DoCount (Params c)
             \<longrightarrow> Attr c = ''uid''"
    using c v by simp
  have l: "last_declarer ''m'' (Children sgM) = Some 1"
    using c v by (simp add: declares_def)
  have g: "fst (formResult_children env0 (take (Suc 1) (Children sgM))
             [\<lparr>keys = [uidKey ''friend'' 10], aggregates = [], uids = [1, 2]\<rparr>,
              \<lparr>keys = [uidKey ''friend'' 11], aggregates = [], uids = [1]\<rparr>]) =
           [\<lparr>keys = [uidKey ''friend'' 10],
              aggregates = [\<lparr>key = \<lparr>Tid = StringID, Value = Str ''30''\<rparr>, attr = ''max(age)''\<rparr>],
              uids = [1, 2]\<rparr>,
            \<lparr>keys = [uidKey ''friend'' 11], aggregates = [], uids = [1]\<rparr>]"
    using c v aggregate_max by simp
  have b: "binding
        [\<lparr>keys = [uidKey ''friend'' 10],
          aggregates = [\<lparr>key = \<lparr>Tid = StringID, Value = Str ''30''\<rparr>, attr = ''max(age)''\<rparr>],
          uids = [1, 2]\<rparr>,
         \<lparr>keys = [uidKey ''friend'' 11], aggregates = [], uids = [1]\<rparr>] 10
       = Some \<lparr>Tid = StringID, Value = Str ''30''\<rparr>"
     "binding
        [\<lparr>keys = [uidKey ''friend'' 10],
          aggregates = [\<lparr>key = \<lparr>Tid = StringID, Value = Str ''30''\<rparr>, attr = ''max(age)''\<rparr>],
          uids = [1, 2]\<rparr>,
         \<lparr>keys = [uidKey ''friend'' 11], aggregates = [], uids = [1]\<rparr>] 11
       = None"
    by (simp_all add: binding_def group_uid_def uidKey_def)
  note t = fillGroupedVars_binding [OF 1 groups_friend 3 4, of Map.empty "[]"]
  have s: "snd (fillGroupedVars env0 sgM Map.empty []) = None" using t by blast
  have m: "fst (fillGroupedVars env0 sgM Map.empty []) ''m'' =
       Some \<lparr>Vals = binding
                (fst (formResult_children env0 (take (Suc 1) (Children sgM))
                   (group \<lparr>group =
                     [\<lparr>keys = [uidKey ''friend'' 10], aggregates = [], uids = [1, 2]\<rparr>,
                      \<lparr>keys = [uidKey ''friend'' 11], aggregates = [], uids = [1]\<rparr>]\<rparr>))),
             path = [] @ [Some friendChild]\<rparr>"
    using t[THEN conjunct2, THEN conjunct1, rule_format, of "''m''"] by (simp only: l option.case)
  show ?thesis using s l m g b by simp
qed

subsection \<open>processGroupBy\<close>

lemma processGroupBy_rows_None:
  "processGroupBy_rows E sg rows out = (out', None) \<Longrightarrow>
     out' = out @ map (\<lambda>uidSet. fst (formResult E sg uidSet)) rows
     \<and> (\<forall>uidSet\<in>set rows. snd (formResult E sg uidSet) = None)"
proof (induction rows arbitrary: out)
  case Nil
  then show ?case by simp
next
  case (Cons u rows)
  obtain r e where f: "formResult E sg u = (r, e)" by force
  have e: "e = None" using Cons.prems f by (cases e) auto
  then have "processGroupBy_rows E sg rows (out @ [r]) = (out', None)" using Cons.prems f by simp
  from Cons.IH[OF this] show ?case using f e by simp
qed

text \<open>
  C9: when \<^verbatim>\<open>processGroupBy\<close> returns nil, the node's group-by output list is the one it
  had followed by the result of \<^verbatim>\<open>formResult\<close> for each row of its matrix, one per row
  and in the order of the rows, each of these calls having returned nil, and the node's
  child list has length zero; when it returns an error, the child list is the one the
  node had.
\<close>

theorem processGroupBy_effect:
  "(snd (snd (processGroupBy E sg doneVars pth)) = None \<longrightarrow>
      GroupbyRes (fst (processGroupBy E sg doneVars pth)) =
        GroupbyRes sg @ map (\<lambda>uidSet. fst (formResult E sg uidSet)) (map snd (uidMatrix sg))
    \<and> length (GroupbyRes (fst (processGroupBy E sg doneVars pth))) =
        length (GroupbyRes sg) + length (uidMatrix sg)
    \<and> (\<forall>uidSet\<in>set (map snd (uidMatrix sg)). snd (formResult E sg uidSet) = None)
    \<and> Children (fst (processGroupBy E sg doneVars pth)) = []
    \<and> length (Children (fst (processGroupBy E sg doneVars pth))) = 0)
   \<and> (snd (snd (processGroupBy E sg doneVars pth)) \<noteq> None \<longrightarrow>
        Children (fst (processGroupBy E sg doneVars pth)) = Children sg)"
proof -
  obtain out r where rows:
    "processGroupBy_rows E sg (map snd (uidMatrix sg)) (GroupbyRes sg) = (out, r)" by force
  show ?thesis
  proof (cases r)
    case (Some e)
    then show ?thesis using rows by (simp add: processGroupBy_def set_GroupbyRes_def)
  next
    case None
    note o = processGroupBy_rows_None[OF rows[unfolded None]]
    obtain dv r' where f: "fillGroupedVars E (set_GroupbyRes sg out) doneVars pth = (dv, r')"
      by force
    show ?thesis using rows None o f
      by (cases r') (auto simp: processGroupBy_def set_GroupbyRes_def set_Children_def)
  qed
qed

lemma formResult_sgM:
  "formResult env0 sgM [1, 2] =
     (\<lparr>group = [\<lparr>keys = [uidKey ''friend'' 11], aggregates = [], uids = [1]\<rparr>,
                \<lparr>keys = [uidKey ''friend'' 10],
                  aggregates = [\<lparr>key = \<lparr>Tid = StringID, Value = Str ''30''\<rparr>, attr = ''max(age)''\<rparr>],
                  uids = [1, 2]\<rparr>]\<rparr>, None)"
proof -
  have c: "Children sgM = [friendChild, maxVarChild]" by (simp add: sgM_def node_def)
  have d: "formResult_dedup env0 [friendChild, maxVarChild] [1, 2] \<lparr>groups = []\<rparr> =
     Inr \<lparr>groups = [\<lparr>elements =
              [(''10'', \<lparr>entities = [1, 2], ekey = \<lparr>Tid = UidID, Value = Uint64 10\<rparr>\<rparr>),
               (''11'', \<lparr>entities = [1], ekey = \<lparr>Tid = UidID, Value = Uint64 11\<rparr>\<rparr>)],
            uattr = ''friend''\<rparr>]\<rparr>"
    by (simp add: friendChild_def maxVarChild_def uidNode_def adjacent_def addValue_def Intersect_def
        getGroup_def addValue_strKey_def addValue_entry_def FormatUint_def digits.simps groupAttr_def)
  have v: "\<not> IgnoreResult (Params maxVarChild)" "IgnoreResult (Params friendChild)"
    by (simp_all add: maxVarChild_def friendChild_def)
  show ?thesis
    using c d v groups_friend aggregate_max
    by (simp add: formResult_def env0_def groupLess_def)
qed

theorem processGroupBy_effect_witness:
  "snd (snd (processGroupBy env0 sgM Map.empty [])) = None
   \<and> GroupbyRes (fst (processGroupBy env0 sgM Map.empty [])) =
     [\<lparr>group = [\<lparr>keys = [uidKey ''friend'' 11], aggregates = [], uids = [1]\<rparr>,
                \<lparr>keys = [uidKey ''friend'' 10],
                  aggregates = [\<lparr>key = \<lparr>Tid = StringID, Value = Str ''30''\<rparr>, attr = ''max(age)''\<rparr>],
                  uids = [1, 2]\<rparr>]\<rparr>]
   \<and> Children (fst (processGroupBy env0 sgM Map.empty [])) = []"
proof -
  have u: "uidMatrix sgM = [(0, [1, 2])]" "GroupbyRes sgM = []"
    by (simp_all add: sgM_def node_def)
  have s: "snd (fillGroupedVars env0 (set_GroupbyRes sgM out) Map.empty []) = None" for out
  proof -
    have c: "Children (set_GroupbyRes sgM out) = [friendChild, maxVarChild]"
      by (simp add: sgM_def node_def set_GroupbyRes_def)
    have v: "Var (Params maxVarChild) = ''m''" "\<not> IgnoreResult (Params maxVarChild)"
      "IgnoreResult (Params friendChild)" "Var (Params friendChild) = ''''"
      by (simp_all add: maxVarChild_def friendChild_def)
    show ?thesis using c v dedup_friend_max groups_friend aggregate_max
      by (simp add: fillGroupedVars_def uidKey_def)
  qed
  have f: "fillGroupedVars env0 (set_GroupbyRes sgM out) Map.empty [] =
             (fst (fillGroupedVars env0 (set_GroupbyRes sgM out) Map.empty []), None)" for out
    using s[of out] by (simp add: prod_eq_iff)
  have n: "snd (snd (processGroupBy env0 sgM Map.empty [])) = None"
    using u formResult_sgM
    by (subst processGroupBy_def) (simp, subst f, simp)
  show ?thesis
    using processGroupBy_effect [of env0 sgM Map.empty "[]"] n u formResult_sgM
    by simp
qed

subsection \<open>What a sequence of addValue calls stores\<close>

lemma getGroup_find_append:
  "n \<le> length gs \<Longrightarrow> getGroup_find (gs @ hs) a n = getGroup_find gs a n"
  by (induction n) (auto simp: nth_append)

lemma getGroup_find_new:
  "getGroup_find (gs @ [\<lparr>elements = els, uattr = a\<rparr>]) a' (Suc (length gs)) =
     (if a' = a then Some (length gs) else getGroup_find gs a' (length gs))"
  by (simp add: getGroup_find_append)

lemma getGroup_find_update:
  "uattr b = uattr (gs ! i) \<Longrightarrow> i < length gs \<Longrightarrow>
   getGroup_find (gs[i := b]) a n = getGroup_find gs a n"
  by (induction n) (auto simp: nth_list_update)

lemma map_of_Some_fst:
  "map_of els k = Some e \<Longrightarrow> k \<in> fst ` set els"
  by (metis map_of_eq_None_iff option.distinct(1))

lemma map_fst_bump:
  "map fst (map (\<lambda>(k', e). if k' = k then (k', e\<lparr>entities := entities e @ [u]\<rparr>)
                            else (k', e)) xs) = map fst xs"
  by (induction xs) auto

lemma map_fst_addValue_entry:
  "map fst (addValue_entry els k v u) =
     (if k \<in> fst ` set els then map fst els else map fst els @ [k])"
proof (cases "map_of els k")
  case None
  then have "k \<notin> fst ` set els" by (simp add: map_of_eq_None_iff)
  then show ?thesis using None by (auto simp: addValue_entry_def)
next
  case (Some e)
  then have "k \<in> fst ` set els" by (rule map_of_Some_fst)
  then show ?thesis using Some by (auto simp: addValue_entry_def)
qed

lemma map_of_bump:
  "map_of (map (\<lambda>(k', e). if k' = k then (k', e\<lparr>entities := entities e @ [u]\<rparr>) else (k', e)) xs) k' =
     (if k' = k then map_option (\<lambda>e. e\<lparr>entities := entities e @ [u]\<rparr>) (map_of xs k)
      else map_of xs k')"
  by (induction xs) auto

lemma map_of_addValue_entry:
  "map_of (addValue_entry els k v u) k' =
     (if k' = k then
        Some (case map_of els k of
                None \<Rightarrow> \<lparr>entities = [u], ekey = v\<rparr>
              | Some e \<Rightarrow> e\<lparr>entities := entities e @ [u]\<rparr>)
      else map_of els k')"
proof (cases "map_of els k")
  case None
  then show ?thesis
    by (simp add: addValue_entry_def map_of_bump map_add_def split: option.splits)
next
  case (Some e)
  then show ?thesis by (simp add: addValue_entry_def map_of_bump)
qed

lemma entities_addValue_entry:
  "\<forall>p\<in>set els. entities (snd p) \<noteq> [] \<Longrightarrow>
   \<forall>p\<in>set (addValue_entry els k v u). entities (snd p) \<noteq> []"
  by (auto simp: addValue_entry_def split: option.splits if_splits)

lemma getGroup_cases:
  assumes "getGroup d a = (d1, i)"
  shows "i < length (groups d1) \<and> uattr (groups d1 ! i) = a
       \<and> getGroup_find (groups d1) a (length (groups d1)) = Some i
       \<and> (d1 = d \<or> (a \<notin> uattr ` set (groups d)
                     \<and> d1 = d\<lparr>groups := groups d @ [\<lparr>elements = [], uattr = a\<rparr>]\<rparr>))"
proof (cases "getGroup_find (groups d) a (length (groups d))")
  case None
  then have "a \<notin> uattr ` set (groups d)"
    using getGroup_find_None[of "length (groups d)" "groups d" a] by simp
  then show ?thesis using assms None by (auto simp: getGroup_def getGroup_find_append)
next
  case (Some j)
  then show ?thesis using assms getGroup_find_Some[OF Some] by (auto simp: getGroup_def)
qed

lemma stored_new_bucket:
  assumes "a \<notin> uattr ` set (groups d)"
  shows "stored (d\<lparr>groups := groups d @ [\<lparr>elements = [], uattr = a\<rparr>]\<rparr>) a' k = stored d a' k"
proof -
  have "getGroup_find (groups d) a (length (groups d)) = None"
    using assms getGroup_find_None[of "length (groups d)" "groups d" a] by simp
  then show ?thesis
    by (auto simp: stored_def getGroup_find_append nth_append split: option.splits
             dest: getGroup_find_Some)
qed

lemma wf_new_bucket:
  assumes "a \<notin> uattr ` set (groups d)" and "wf_dedup d"
  shows "wf_dedup (d\<lparr>groups := groups d @ [\<lparr>elements = [], uattr = a\<rparr>]\<rparr>)"
  using assms by (auto simp: wf_dedup_def)

lemma stored_update:
  assumes i: "i < length (groups d)" and a: "uattr (groups d ! i) = a"
      and f: "getGroup_find (groups d) a (length (groups d)) = Some i"
  shows "stored (d\<lparr>groups := (groups d)[i := (groups d ! i)
                    \<lparr>elements := addValue_entry (elements (groups d ! i)) k v u\<rparr>]\<rparr>) a' k' =
         (if a' = a \<and> k' = k then stored d a' k' @ [u] else stored d a' k')"
proof -
  let ?b = "(groups d ! i)\<lparr>elements := addValue_entry (elements (groups d ! i)) k v u\<rparr>"
  have g: "getGroup_find ((groups d)[i := ?b]) a' (length (groups d)) =
           getGroup_find (groups d) a' (length (groups d))"
    by (rule getGroup_find_update) (use i in simp_all)
  show ?thesis
  proof (cases "a' = a")
    case True
    then show ?thesis using g f i
      by (auto simp: stored_def map_of_addValue_entry split: option.splits)
  next
    case False
    show ?thesis
    proof (cases "getGroup_find (groups d) a' (length (groups d))")
      case None
      then show ?thesis using g False by (simp add: stored_def)
    next
      case (Some j)
      then have "j < length (groups d) \<and> uattr (groups d ! j) = a'" by (rule getGroup_find_Some)
      then have "j \<noteq> i" using a False by auto
      then show ?thesis using g Some False by (simp add: stored_def)
    qed
  qed
qed

lemma wf_update:
  assumes i: "i < length (groups d)" and w: "wf_dedup d"
  shows "wf_dedup (d\<lparr>groups := (groups d)[i := (groups d ! i)
                    \<lparr>elements := addValue_entry (elements (groups d ! i)) k v u\<rparr>]\<rparr>)"
proof -
  let ?b = "(groups d ! i)\<lparr>elements := addValue_entry (elements (groups d ! i)) k v u\<rparr>"
  have m: "map uattr ((groups d)[i := ?b]) = map uattr (groups d)"
    using i by (simp add: map_update list_update_same_conv)
  have bi: "groups d ! i \<in> set (groups d)" using i by simp
  have b: "distinct (map fst (elements ?b)) \<and> (\<forall>p\<in>set (elements ?b). entities (snd p) \<noteq> [])"
    using w bi entities_addValue_entry[of "elements (groups d ! i)" k v u]
    by (auto simp: wf_dedup_def map_fst_addValue_entry)
  have "\<forall>b'\<in>set ((groups d)[i := ?b]). distinct (map fst (elements b'))
            \<and> (\<forall>p\<in>set (elements b'). entities (snd p) \<noteq> [])"
  proof
    fix b' assume "b' \<in> set ((groups d)[i := ?b])"
    then have "b' = ?b \<or> b' \<in> set (groups d)" using set_update_subset_insert by fastforce
    then show "distinct (map fst (elements b')) \<and> (\<forall>p\<in>set (elements b'). entities (snd p) \<noteq> [])"
      using b w by (auto simp: wf_dedup_def)
  qed
  then show ?thesis using w m by (simp add: wf_dedup_def)
qed

lemma addValue_step:
  assumes "addValue E d a v u = Inr d'" and "wf_dedup d"
  shows "wf_dedup d'
       \<and> (\<forall>a' k'. stored d' a' k' =
            (if a' = a \<and> addValue_strKey E v = Inr (Some k') then stored d a' k' @ [u]
             else stored d a' k'))"
proof -
  obtain d1 i where g: "getGroup d a = (d1, i)" by force
  note gc = getGroup_cases[OF g]
  have w1: "wf_dedup d1"
  proof (cases "d1 = d")
    case True
    then show ?thesis using assms(2) by simp
  next
    case False
    then have n: "a \<notin> uattr ` set (groups d)"
      and e: "d1 = d\<lparr>groups := groups d @ [\<lparr>elements = [], uattr = a\<rparr>]\<rparr>"
      using gc by auto
    show ?thesis unfolding e by (rule wf_new_bucket[OF n assms(2)])
  qed
  have s1: "stored d1 a' k' = stored d a' k'" for a' k'
  proof (cases "d1 = d")
    case True
    then show ?thesis by simp
  next
    case False
    then have n: "a \<notin> uattr ` set (groups d)"
      and e: "d1 = d\<lparr>groups := groups d @ [\<lparr>elements = [], uattr = a\<rparr>]\<rparr>"
      using gc by auto
    show ?thesis unfolding e by (rule stored_new_bucket[OF n])
  qed
  show ?thesis
  proof (cases "addValue_strKey E v")
    case (Inl e)
    then show ?thesis using assms(1) g by (simp add: addValue_def)
  next
    case (Inr ko)
    show ?thesis
    proof (cases ko)
      case None
      then have "d' = d1" using assms(1) g Inr by (simp add: addValue_def)
      then show ?thesis using w1 s1 Inr None by simp
    next
      case (Some k)
      then have d': "d' = d1\<lparr>groups := (groups d1)[i := (groups d1 ! i)
                    \<lparr>elements := addValue_entry (elements (groups d1 ! i)) k v u\<rparr>]\<rparr>"
        using assms(1) g Inr by (simp add: addValue_def)
      have i: "i < length (groups d1)" "uattr (groups d1 ! i) = a"
        "getGroup_find (groups d1) a (length (groups d1)) = Some i" using gc by simp_all
      show ?thesis
        using wf_update[OF i(1) w1, of k v u] stored_update[OF i, of k v u] d' s1 Inr Some
        by auto
    qed
  qed
qed

lemma addValues_stored:
  assumes "addValues E d0 calls = Inr d" and "wf_dedup d0"
  shows "wf_dedup d \<and> (\<forall>a k. stored d a k = stored d0 a k @ recorded E calls a k)"
  using assms
proof (induction calls arbitrary: d0)
  case Nil
  then show ?case by (simp add: recorded_def)
next
  case (Cons c calls)
  obtain a v u where c: "c = (a, v, u)" by (cases c) auto
  obtain d1 where d1: "addValue E d0 a v u = Inr d1" "addValues E d1 calls = Inr d"
    using Cons.prems(1) c by (cases "addValue E d0 a v u") auto
  note st = addValue_step[OF d1(1) Cons.prems(2)]
  from Cons.IH[OF d1(2)] st have ih: "wf_dedup d"
    "\<And>a k. stored d a k = stored d1 a k @ recorded E calls a k" by auto
  show ?case using ih st c by (auto simp: recorded_def)
qed

lemma wf_find:
  assumes "wf_dedup d" and "b \<in> set (groups d)"
  shows "\<exists>i. getGroup_find (groups d) (uattr b) (length (groups d)) = Some i \<and> groups d ! i = b"
proof -
  have "getGroup_find (groups d) (uattr b) (length (groups d)) \<noteq> None"
    using assms(2) getGroup_find_None[of "length (groups d)" "groups d" "uattr b"] by auto
  then obtain i where i: "getGroup_find (groups d) (uattr b) (length (groups d)) = Some i" by auto
  then have ii: "i < length (groups d)" "uattr (groups d ! i) = uattr b"
    using getGroup_find_Some[OF i] by simp_all
  obtain j where j: "j < length (groups d)" "groups d ! j = b"
    using assms(2) by (auto simp: in_set_conv_nth)
  have "map uattr (groups d) ! i = map uattr (groups d) ! j" using ii j by simp
  moreover have "distinct (map uattr (groups d))" using assms(1) by (simp add: wf_dedup_def)
  ultimately have "i = j"
    using nth_eq_iff_index_eq[of "map uattr (groups d)" i j] ii(1) j(1) by simp
  then show ?thesis using i j by simp
qed

lemma stored_entry:
  assumes "wf_dedup d" and "b \<in> set (groups d)" and "(k, e) \<in> set (elements b)"
  shows "stored d (uattr b) k = entities e"
proof -
  obtain i where i: "getGroup_find (groups d) (uattr b) (length (groups d)) = Some i"
    "groups d ! i = b" using wf_find[OF assms(1,2)] by blast
  have "distinct (map fst (elements b))" using assms(1,2) by (simp add: wf_dedup_def)
  then have "map_of (elements b) k = Some e" using assms(3) by simp
  then show ?thesis using i by (simp add: stored_def)
qed

lemma stored_nonempty:
  assumes "stored d a k \<noteq> []"
  shows "\<exists>b\<in>set (groups d). uattr b = a
           \<and> (\<exists>e. (k, e) \<in> set (elements b) \<and> entities e = stored d a k)"
proof -
  obtain i where i: "getGroup_find (groups d) a (length (groups d)) = Some i"
    using assms by (auto simp: stored_def split: option.splits)
  then have ii: "i < length (groups d)" "uattr (groups d ! i) = a"
    using getGroup_find_Some[OF i] by simp_all
  obtain e where e: "map_of (elements (groups d ! i)) k = Some e"
    using assms i by (auto simp: stored_def split: option.splits)
  then have "(k, e) \<in> set (elements (groups d ! i))" by (rule map_of_SomeD)
  moreover have "entities e = stored d a k" using i e by (simp add: stored_def)
  ultimately show ?thesis using ii by (metis nth_mem)
qed

text \<open>
  C3, amended: after any sequence of \<^verbatim>\<open>addValue\<close> calls on a new index that runs to its
  end, there is one bucket per attribute and one entry per key in a bucket; the entry
  under a key of an attribute's bucket holds exactly the identifiers of the calls with
  that attribute whose value has that canonical key, in call order, and it is not empty,
  so that two calls land in the same entry iff attribute and canonical key agree; every
  call that is not dropped has its identifier in its entry, and a dropped call's
  identifier is in none on its account; and the lists under different keys of a bucket
  are pairwise disjoint when no identifier is added under one attribute with values of
  different canonical keys.
\<close>

theorem addValue_buckets:
  assumes "addValues E \<lparr>groups = []\<rparr> calls = Inr d"
  shows "distinct (map uattr (groups d))
       \<and> (\<forall>b\<in>set (groups d). distinct (map fst (elements b))
            \<and> (\<forall>(k, e)\<in>set (elements b).
                  entities e = recorded E calls (uattr b) k \<and> entities e \<noteq> []))
       \<and> (\<forall>(a, v, u)\<in>set calls. \<forall>k. addValue_strKey E v = Inr (Some k) \<longrightarrow>
             (\<exists>b\<in>set (groups d). uattr b = a
                \<and> (\<exists>e. (k, e) \<in> set (elements b) \<and> u \<in> set (entities e))))
       \<and> ((\<forall>(a, v, u)\<in>set calls. \<forall>(a', v', u')\<in>set calls.
               a = a' \<and> u = u' \<longrightarrow> addValue_strKey E v = addValue_strKey E v') \<longrightarrow>
            (\<forall>b\<in>set (groups d). \<forall>(k, e)\<in>set (elements b). \<forall>(k', e')\<in>set (elements b).
               k \<noteq> k' \<longrightarrow> set (entities e) \<inter> set (entities e') = {}))"
proof -
  have w0: "wf_dedup \<lparr>groups = []\<rparr>" by (simp add: wf_dedup_def)
  have s0: "stored \<lparr>groups = []\<rparr> a k = []" for a k by (simp add: stored_def)
  from addValues_stored[OF assms w0] have w: "wf_dedup d"
    and st: "\<And>a k. stored d a k = recorded E calls a k" by (auto simp: s0)
  have ent: "entities e = recorded E calls (uattr b) k"
    if "b \<in> set (groups d)" "(k, e) \<in> set (elements b)" for b k e
    using stored_entry[OF w that] st by simp
  have 1: "distinct (map uattr (groups d))" using w by (simp add: wf_dedup_def)
  have 2: "\<forall>b\<in>set (groups d). distinct (map fst (elements b))
            \<and> (\<forall>(k, e)\<in>set (elements b).
                  entities e = recorded E calls (uattr b) k \<and> entities e \<noteq> [])"
    using w ent by (fastforce simp: wf_dedup_def)
  have 3: "\<forall>(a, v, u)\<in>set calls. \<forall>k. addValue_strKey E v = Inr (Some k) \<longrightarrow>
             (\<exists>b\<in>set (groups d). uattr b = a
                \<and> (\<exists>e. (k, e) \<in> set (elements b) \<and> u \<in> set (entities e)))"
  proof (clarify)
    fix a v u k assume c: "(a, v, u) \<in> set calls" "addValue_strKey E v = Inr (Some k)"
    then have u: "u \<in> set (recorded E calls a k)" by (force simp: recorded_def)
    then have "stored d a k \<noteq> []" using st by auto
    from stored_nonempty[OF this] obtain b e where be: "b \<in> set (groups d)" "uattr b = a"
      "(k, e) \<in> set (elements b)" "entities e = stored d a k" by blast
    have "u \<in> set (entities e)" using be(4) st u by simp
    then show "\<exists>b\<in>set (groups d). uattr b = a
                \<and> (\<exists>e. (k, e) \<in> set (elements b) \<and> u \<in> set (entities e))"
      using be by blast
  qed
  have disj: "set (entities e) \<inter> set (entities e') = {}"
    if sv: "\<forall>(a, v, u)\<in>set calls. \<forall>(a', v', u')\<in>set calls.
               a = a' \<and> u = u' \<longrightarrow> addValue_strKey E v = addValue_strKey E v'"
      and b: "b \<in> set (groups d)" "(k, e) \<in> set (elements b)" "(k', e') \<in> set (elements b)"
      and ne: "k \<noteq> k'" for b k e k' e'
  proof (rule ccontr)
    assume "set (entities e) \<inter> set (entities e') \<noteq> {}"
    then obtain x where x: "x \<in> set (entities e)" "x \<in> set (entities e')" by blast
    have "x \<in> set (recorded E calls (uattr b) k)" using ent[OF b(1,2)] x(1) by simp
    then obtain v where v: "(uattr b, v, x) \<in> set calls" "addValue_strKey E v = Inr (Some k)"
      by (auto simp: recorded_def)
    have "x \<in> set (recorded E calls (uattr b) k')" using ent[OF b(1,3)] x(2) by simp
    then obtain v' where v': "(uattr b, v', x) \<in> set calls" "addValue_strKey E v' = Inr (Some k')"
      by (auto simp: recorded_def)
    have "addValue_strKey E v = addValue_strKey E v'" using sv v(1) v'(1) by fast
    then show False using v(2) v'(2) ne by simp
  qed
  have 4: "(\<forall>(a, v, u)\<in>set calls. \<forall>(a', v', u')\<in>set calls.
               a = a' \<and> u = u' \<longrightarrow> addValue_strKey E v = addValue_strKey E v') \<longrightarrow>
            (\<forall>b\<in>set (groups d). \<forall>(k, e)\<in>set (elements b). \<forall>(k', e')\<in>set (elements b).
               k \<noteq> k' \<longrightarrow> set (entities e) \<inter> set (entities e') = {})"
  proof (intro impI ballI)
    fix b p
    assume sv: "\<forall>(a, v, u)\<in>set calls. \<forall>(a', v', u')\<in>set calls.
               a = a' \<and> u = u' \<longrightarrow> addValue_strKey E v = addValue_strKey E v'"
      and b: "b \<in> set (groups d)" "p \<in> set (elements b)"
    obtain k e where p: "p = (k, e)" by (cases p)
    have "\<forall>p'\<in>set (elements b). case p' of (k', e') \<Rightarrow>
            k \<noteq> k' \<longrightarrow> set (entities e) \<inter> set (entities e') = {}"
    proof
      fix p' assume p': "p' \<in> set (elements b)"
      obtain k' e' where q: "p' = (k', e')" by (cases p')
      show "case p' of (k', e') \<Rightarrow>
            k \<noteq> k' \<longrightarrow> set (entities e) \<inter> set (entities e') = {}"
        unfolding q prod.case using disj[OF sv b(1), of k e k' e'] b(2) p' p q by simp
    qed
    then show "case p of (k, e) \<Rightarrow> \<forall>(k', e')\<in>set (elements b).
            k \<noteq> k' \<longrightarrow> set (entities e) \<inter> set (entities e') = {}"
      unfolding p prod.case .
  qed
  show ?thesis by (rule conjI[OF 1 conjI[OF 2 conjI[OF 3 4]]])
qed

lemma addValues_callsNames:
  "addValues env0 \<lparr>groups = []\<rparr> callsNames =
     Inr \<lparr>groups =
       [\<lparr>elements = [(''a'', \<lparr>entities = [1, 2], ekey = \<lparr>Tid = StringID, Value = Str ''a''\<rparr>\<rparr>),
                     (''b'', \<lparr>entities = [3], ekey = \<lparr>Tid = StringID, Value = Str ''b''\<rparr>\<rparr>)],
         uattr = ''name''\<rparr>,
        \<lparr>elements = [], uattr = ''score''\<rparr>]\<rparr>"
  by (simp add: callsNames_def addValue_def getGroup_def addValue_strKey_def addValue_entry_def
        env0_def)

theorem addValue_buckets_witness:
  "addValues env0 \<lparr>groups = []\<rparr> callsNames =
     Inr \<lparr>groups =
       [\<lparr>elements = [(''a'', \<lparr>entities = [1, 2], ekey = \<lparr>Tid = StringID, Value = Str ''a''\<rparr>\<rparr>),
                     (''b'', \<lparr>entities = [3], ekey = \<lparr>Tid = StringID, Value = Str ''b''\<rparr>\<rparr>)],
         uattr = ''name''\<rparr>,
        \<lparr>elements = [], uattr = ''score''\<rparr>]\<rparr>
   \<and> list_all (\<lambda>(a, v, u). list_all (\<lambda>(a', v', u').
         a = a' \<and> u = u' \<longrightarrow> addValue_strKey env0 v = addValue_strKey env0 v') callsNames)
       callsNames
   \<and> recorded env0 callsNames ''name'' ''a'' = [1, 2]
   \<and> recorded env0 callsNames ''name'' ''b'' = [3]
   \<and> addValue_strKey env0 \<lparr>Tid = StringID, Value = Str ''a''\<rparr> = Inr (Some ''a'')
   \<and> addValue_strKey env0 \<lparr>Tid = FloatID, Value = Opaque 0\<rparr> = Inr None"
proof -
  have k: "addValue_strKey env0 \<lparr>Tid = StringID, Value = Str s\<rparr> = Inr (Some s)" for s
    by (simp add: addValue_strKey_def env0_def)
  have k': "addValue_strKey env0 \<lparr>Tid = FloatID, Value = Opaque 0\<rparr> = Inr None"
    by (simp add: addValue_strKey_def env0_def)
  have sv: "list_all (\<lambda>(a, v, u). list_all (\<lambda>(a', v', u').
         a = a' \<and> u = u' \<longrightarrow> addValue_strKey env0 v = addValue_strKey env0 v') callsNames)
       callsNames"
    by (simp add: callsNames_def)
  have r: "recorded env0 callsNames ''name'' ''a'' = [1, 2]"
    "recorded env0 callsNames ''name'' ''b'' = [3]"
    by (simp_all add: recorded_def callsNames_def k k')
  show ?thesis
    using addValue_buckets [OF addValues_callsNames] addValues_callsNames sv r k k'
    by simp
qed

text \<open>
  C3, as the specification words it, fails: an identifier that is added under one
  attribute with two values (a source with two adjacent entities, as the UID-node loops of
  \<^verbatim>\<open>formResult\<close> and \<^verbatim>\<open>fillGroupedVars\<close> add it) is stored under both keys, and the
  lists under different keys are not disjoint.
\<close>

theorem addValue_shared_identifier_counterexample:
  "addValues env0 \<lparr>groups = []\<rparr> callsFriends =
     Inr \<lparr>groups =
       [\<lparr>elements = [(''10'', \<lparr>entities = [1], ekey = \<lparr>Tid = UidID, Value = Uint64 10\<rparr>\<rparr>),
                     (''11'', \<lparr>entities = [1], ekey = \<lparr>Tid = UidID, Value = Uint64 11\<rparr>\<rparr>)],
         uattr = ''friend''\<rparr>]\<rparr>
   \<and> ''10'' \<noteq> ''11''
   \<and> set (entities \<lparr>entities = [1], ekey = \<lparr>Tid = UidID, Value = Uint64 10\<rparr>\<rparr>)
       \<inter> set (entities \<lparr>entities = [1], ekey = \<lparr>Tid = UidID, Value = Uint64 11\<rparr>\<rparr>) \<noteq> {}"
  by (simp add: callsFriends_def addValue_def getGroup_def addValue_strKey_def addValue_entry_def
        FormatUint_def digits.simps)

end
